theory Spec2Isabelle
  imports Main
begin

section \<open>The board\<close>

text \<open>
  The source keeps the board as \<open>PuyoColor[][]\<close> with
  \<open>PuyoColor = 'red' | 'green' | 'blue' | 'yellow' | 'purple' | null\<close>;
  \<open>null\<close> is the empty cell.  Indices are JavaScript numbers; the code computes
  \<open>y - 1\<close>, \<open>x - 1\<close> and lets a counter run to \<open>-1\<close>, so indices are \<open>int\<close> here.
\<close>

datatype color = Red | Green | Blue | Yellow | Purple

type_synonym PuyoColor = "color option"
type_synonym Grid = "PuyoColor list list"

definition GRID_ROWS :: int where "GRID_ROWS = 12"
definition GRID_COLS :: int where "GRID_COLS = 6"

definition createEmptyGrid :: Grid where
  "createEmptyGrid = replicate (nat GRID_ROWS) (replicate (nat GRID_COLS) None)"

text \<open>
  \<open>grid[y][x]\<close> and \<open>grid[y][x] = v\<close>.  Every read and write of the source that the
  theorems below reach is inside the grid: either the source checks the bounds first, or the
  indices range over the grid's own dimensions.  Outside the grid JavaScript would yield
  \<open>undefined\<close>, throw (missing row) or extend the row; those cases are excluded by the
  hypotheses of the theorems (a board has \<open>GRID_ROWS\<close> rows of \<open>GRID_COLS\<close> cells).
\<close>

definition cell :: "Grid \<Rightarrow> int \<Rightarrow> int \<Rightarrow> PuyoColor" where
  "cell g y x = g ! nat y ! nat x"

definition set_cell :: "Grid \<Rightarrow> int \<Rightarrow> int \<Rightarrow> PuyoColor \<Rightarrow> Grid" where
  "set_cell g y x v = g[nat y := (g ! nat y)[nat x := v]]"

definition rect :: "nat \<Rightarrow> nat \<Rightarrow> Grid \<Rightarrow> bool" where
  "rect h w g \<longleftrightarrow> length g = h \<and> (\<forall>r \<in> set g. length r = w)"

definition wf_grid :: "Grid \<Rightarrow> bool" where
  "wf_grid g \<longleftrightarrow> rect (nat GRID_ROWS) (nat GRID_COLS) g"

section \<open>Gravity\<close>

text \<open>
  The inner loop of \<open>applyGravity\<close>:
  \<open>for (let row = height - 1; row >= 0; row--)\<close> with the running \<open>emptyRow\<close>.
\<close>

function gravity_rows :: "int \<Rightarrow> int \<Rightarrow> int \<Rightarrow> Grid \<Rightarrow> Grid" where
  "gravity_rows col row emptyRow newGrid =
     (if row \<ge> 0 then
        (if cell newGrid row col \<noteq> None then
           gravity_rows col (row - 1) (emptyRow - 1)
             (if row \<noteq> emptyRow
              then set_cell (set_cell newGrid emptyRow col (cell newGrid row col)) row col None
              else newGrid)
         else gravity_rows col (row - 1) emptyRow newGrid)
      else newGrid)"
  by pat_completeness auto
termination
  by (relation "measure (\<lambda>(col, row, emptyRow, newGrid). nat (row + 1))") auto

declare gravity_rows.simps [simp del]

text \<open>
  \<open>applyGravity\<close>: the copy \<open>grid.map(row => [...row])\<close> is the grid itself in a pure
  setting; \<open>width = newGrid[0].length\<close> (the source throws on a grid without rows, which
  is not a board; the model takes width 0 there) and \<open>height = newGrid.length\<close>.
\<close>

definition applyGravity :: "Grid \<Rightarrow> Grid" where
  "applyGravity grid =
     (let newGrid = grid;
          width = (case newGrid of [] \<Rightarrow> 0 | r # _ \<Rightarrow> length r);
          height = int (length newGrid)
      in foldl (\<lambda>ng col. gravity_rows (int col) (height - 1) (height - 1) ng)
               newGrid [0..<width])"

section \<open>Match detection\<close>

definition directions :: "(int \<times> int) list" where
  "directions = [(0, 1), (1, 0), (0, - 1), (- 1, 0)]"

text \<open>
  The \<open>for (const [dy, dx] of directions)\<close> loop of \<open>findMatches\<close>, run for the cell
  \<open>(cy, cx)\<close> just taken from the queue: a neighbour inside the board, of the colour being
  searched and not in \<open>visited\<close>, is pushed on \<open>group\<close> (written \<open>grp\<close>) and on \<open>queue\<close>.  The
  \<open>Set<string>\<close> of keys \<open>`${cy},${cx}`\<close> is a set of pairs.
\<close>

fun visit_neighbours ::
  "Grid \<Rightarrow> PuyoColor \<Rightarrow> (int \<times> int) set \<Rightarrow> int \<Rightarrow> int \<Rightarrow> (int \<times> int) list \<Rightarrow>
   (int \<times> int) list \<times> (int \<times> int) list \<Rightarrow> (int \<times> int) list \<times> (int \<times> int) list" where
  "visit_neighbours g color visited cy cx [] (grp, queue) = (grp, queue)"
| "visit_neighbours g color visited cy cx ((dy, dx) # ds) (grp, queue) =
     (let ny = cy + dy; nx = cx + dx in
      if ny \<ge> 0 \<and> ny < GRID_ROWS \<and> nx \<ge> 0 \<and> nx < GRID_COLS \<and>
         cell g ny nx = color \<and> (ny, nx) \<notin> visited
      then visit_neighbours g color visited cy cx ds (grp @ [(ny, nx)], queue @ [(ny, nx)])
      else visit_neighbours g color visited cy cx ds (grp, queue))"

text \<open>
  The \<open>while (queue.length > 0)\<close> loop: \<open>queue.shift()\<close>, \<open>visited.add\<close>, then the
  neighbours.  A cell is marked visited when it leaves the queue, not when it enters it.
\<close>

function flood ::
  "Grid \<Rightarrow> PuyoColor \<Rightarrow> (int \<times> int) list \<Rightarrow> (int \<times> int) list \<Rightarrow> (int \<times> int) set \<Rightarrow>
   (int \<times> int) list" where
  "flood g color grp queue visited =
     (case queue of
        [] \<Rightarrow> grp
      | (cy, cx) # rest \<Rightarrow>
          (let visited' = insert (cy, cx) visited;
               (grp', queue') = visit_neighbours g color visited' cy cx directions (grp, rest)
           in flood g color grp' queue' visited'))"
  by pat_completeness auto

text \<open>
  Termination of the loop: a cell of the queue that is not yet visited becomes visited when it
  is taken, and until then only visited cells stand before it; the pushed cells are board
  cells that are not visited.
\<close>

definition board_cells :: "(int \<times> int) set" where
  "board_cells = {0 .. GRID_ROWS - 1} \<times> {0 .. GRID_COLS - 1}"

lemma finite_board_cells [simp]: "finite board_cells"
  by (simp add: board_cells_def)

lemma visit_neighbours_appends:
  "\<exists>new. visit_neighbours g color visited cy cx ds (grp, queue) = (grp @ new, queue @ new) \<and>
         set new \<subseteq> {p \<in> board_cells. p \<notin> visited \<and> cell g (fst p) (snd p) = color \<and>
                          (\<exists>d \<in> set ds. p = (cy + fst d, cx + snd d))}"
proof (induction ds arbitrary: grp queue)
  case Nil
  then show ?case by simp
next
  case (Cons d ds)
  obtain dy dx where d: "d = (dy, dx)" by (cases d)
  show ?case
  proof (cases "cy + dy \<ge> 0 \<and> cy + dy < GRID_ROWS \<and> cx + dx \<ge> 0 \<and> cx + dx < GRID_COLS \<and>
         cell g (cy + dy) (cx + dx) = color \<and> (cy + dy, cx + dx) \<notin> visited")
    case True
    from Cons.IH [of "grp @ [(cy + dy, cx + dx)]" "queue @ [(cy + dy, cx + dx)]"]
    obtain new where new: "visit_neighbours g color visited cy cx ds
          (grp @ [(cy + dy, cx + dx)], queue @ [(cy + dy, cx + dx)])
          = ((grp @ [(cy + dy, cx + dx)]) @ new, (queue @ [(cy + dy, cx + dx)]) @ new)"
      and sub: "set new \<subseteq> {p \<in> board_cells. p \<notin> visited \<and> cell g (fst p) (snd p) = color \<and>
                          (\<exists>d \<in> set ds. p = (cy + fst d, cx + snd d))}"
      by blast
    have "(cy + dy, cx + dx) \<in> board_cells" using True by (auto simp: board_cells_def)
    with True sub new d show ?thesis
      by (intro exI [of _ "(cy + dy, cx + dx) # new"]) (auto simp: Let_def)
  next
    case False
    from Cons.IH [of grp queue] obtain new where
      "visit_neighbours g color visited cy cx ds (grp, queue) = (grp @ new, queue @ new)"
      "set new \<subseteq> {p \<in> board_cells. p \<notin> visited \<and> cell g (fst p) (snd p) = color \<and>
                          (\<exists>d \<in> set ds. p = (cy + fst d, cx + snd d))}"
      by blast
    with False d show ?thesis
      by (intro exI [of _ new]) (auto simp: Let_def)
  qed
qed

lemma takeWhile_append_fresh:
  "\<forall>p \<in> set new. \<not> P p \<Longrightarrow> length (takeWhile P (rest @ new)) = length (takeWhile P rest)"
  by (induction rest) (auto simp: takeWhile_eq_Nil_iff intro: takeWhile_eq_Nil_iff [THEN iffD2] simp: neq_Nil_conv)

termination flood
proof (relation "measures [\<lambda>(g, color, grp, queue, visited). card ((board_cells \<union> set queue) - visited),
                           \<lambda>(g, color, grp, queue, visited). length (takeWhile (\<lambda>p. p \<in> visited) queue)]",
       goal_cases)
  case 1
  then show ?case by simp
next
  case (2 g color grp queue visited c rest cy cx visited' res grp' queue')
  obtain new where new: "visit_neighbours g color visited' cy cx directions (grp, rest) = (grp @ new, rest @ new)"
    and sub: "set new \<subseteq> {p \<in> board_cells. p \<notin> visited'}"
    using visit_neighbours_appends [of g color visited' cy cx directions grp rest] by blast
  have q': "queue' = rest @ new" using 2 new by simp
  have q: "queue = (cy, cx) # rest" using 2 by simp
  have v': "visited' = insert (cy, cx) visited" using 2 by simp
  have fin: "finite ((board_cells \<union> set queue) - visited)" by simp
  show ?case
  proof (cases "(cy, cx) \<in> visited")
    case True
    then have veq: "visited' = visited" using v' by auto
    have "(board_cells \<union> set queue') - visited' \<subseteq> (board_cells \<union> set queue) - visited"
      using q q' sub veq by auto
    then have le: "card ((board_cells \<union> set queue') - visited') \<le> card ((board_cells \<union> set queue) - visited)"
      by (rule card_mono [OF fin])
    have "length (takeWhile (\<lambda>p. p \<in> visited') queue') = length (takeWhile (\<lambda>p. p \<in> visited) rest)"
      unfolding q' veq using sub veq by (intro takeWhile_append_fresh) auto
    also have "\<dots> < length (takeWhile (\<lambda>p. p \<in> visited) queue)"
      using True q by simp
    finally show ?thesis using le by auto
  next
    case False
    have "(board_cells \<union> set queue') - visited' \<subset> (board_cells \<union> set queue) - visited"
      using q q' sub v' False by auto
    then have "card ((board_cells \<union> set queue') - visited') < card ((board_cells \<union> set queue) - visited)"
      by (rule psubset_card_mono [OF fin])
    then show ?thesis by simp
  qed
qed

declare flood.simps [simp del]

text \<open>
  The body of the two nested \<open>for\<close> loops of \<open>findMatches\<close> at the cell
  \<open>(y, x)\<close>: a non-empty cell starts a search of its own, with a fresh \<open>group\<close>,
  \<open>queue\<close> and \<open>visited\<close>, and a group of length 4 or more is appended to
  \<open>matches\<close>.
\<close>

definition scan_cell :: "Grid \<Rightarrow> (int \<times> int) list \<Rightarrow> int \<times> int \<Rightarrow> (int \<times> int) list" where
  "scan_cell g matches p =
     (case p of (y, x) \<Rightarrow>
        if cell g y x \<noteq> None then
          (let color = cell g y x;
               grp = flood g color [(y, x)] [(y, x)] {}
           in if length grp \<ge> 4 then matches @ grp else matches)
        else matches)"

text \<open>
  \<open>findMatches\<close>: the loops visit the cells of the board row by row (\<open>y\<close> outside,
  \<open>x\<close> inside).
\<close>

definition findMatches :: "Grid \<Rightarrow> (int \<times> int) list" where
  "findMatches g =
     foldl (scan_cell g) [] (List.product [0 .. GRID_ROWS - 1] [0 .. GRID_COLS - 1])"

text \<open>
  \<open>removeMatchedPuyos\<close>: the copy of the grid with \<open>newGrid[y][x] = null\<close> for every
  listed position, in list order.
\<close>

definition removeMatchedPuyos :: "Grid \<Rightarrow> (int \<times> int) list \<Rightarrow> Grid" where
  "removeMatchedPuyos g matches = foldl (\<lambda>newGrid (y, x). set_cell newGrid y x None) g matches"

section \<open>The piece and the session state\<close>

text \<open>\<open>interface PuyoPair\<close>; the fields \<open>x\<close> and \<open>y\<close> are \<open>x_coord\<close> and \<open>y_coord\<close>.\<close>

record PuyoPair =
  color1 :: PuyoColor
  color2 :: PuyoColor
  x_coord :: int
  y_coord :: int
  rotation :: int

datatype GameState = Title | Active | Over | Pause

datatype direction = Left | Right | Down

text \<open>
  The \<open>useState\<close> cells of the component that the rules read or write.  The fall cadence,
  the high score and the audio context belong to the timer, the storage and the sound and
  are left out.
\<close>

record Game =
  grid :: Grid
  gameState :: GameState
  score :: int
  currentPuyo :: "PuyoPair option"
  nextPuyos :: "PuyoPair list"
  chainCounter :: int
  isPaused :: bool
  heldPuyo :: "PuyoPair option"
  canHold :: bool
  isChaining :: bool
  displayChainCounter :: int

text \<open>
  \<open>generatePuyoPair\<close>: the two colours drawn with \<open>Math.random\<close> are the argument.
\<close>

definition generatePuyoPair :: "color \<times> color \<Rightarrow> PuyoPair" where
  "generatePuyoPair rnd =
     \<lparr>color1 = Some (fst rnd), color2 = Some (snd rnd), x_coord = 2, y_coord = 0, rotation = 0\<rparr>"

definition generateNextPuyos ::
  "color \<times> color \<Rightarrow> color \<times> color \<Rightarrow> color \<times> color \<Rightarrow> color \<times> color \<Rightarrow> PuyoPair list" where
  "generateNextPuyos r1 r2 r3 r4 =
     [generatePuyoPair r1, generatePuyoPair r2, generatePuyoPair r3, generatePuyoPair r4]"

definition startGame ::
  "color \<times> color \<Rightarrow> color \<times> color \<Rightarrow> color \<times> color \<Rightarrow> color \<times> color \<Rightarrow> Game \<Rightarrow> Game" where
  "startGame r1 r2 r3 r4 s =
     (let initialNextPuyos = generateNextPuyos r1 r2 r3 r4
      in s\<lparr>grid := createEmptyGrid, score := 0, chainCounter := 0,
            currentPuyo := Some (hd initialNextPuyos), nextPuyos := tl initialNextPuyos,
            gameState := Active, isPaused := False, heldPuyo := None, canHold := True\<rparr>)"

definition getSecondPuyoPosition :: "int \<Rightarrow> int \<Rightarrow> int \<Rightarrow> int \<times> int" where
  "getSecondPuyoPosition x y r =
     (if r = 0 then (x, y - 1)
      else if r = 1 then (x + 1, y)
      else if r = 2 then (x, y + 1)
      else if r = 3 then (x - 1, y)
      else (x, y))"

text \<open>\<open>isValidMove\<close> reads the grid of the state; \<open>!grid[y][x]\<close> holds of \<open>null\<close> only.\<close>

definition isValidMove :: "Grid \<Rightarrow> PuyoPair \<Rightarrow> bool" where
  "isValidMove g puyo =
     (let x = x_coord puyo; y = y_coord puyo;
          (x2, y2) = getSecondPuyoPosition x y (rotation puyo)
      in x \<ge> 0 \<and> x < GRID_COLS \<and> y \<ge> 0 \<and> y < GRID_ROWS \<and>
         x2 \<ge> 0 \<and> x2 < GRID_COLS \<and> y2 \<ge> 0 \<and> y2 < GRID_ROWS \<and>
         cell g y x = None \<and> cell g y2 x2 = None)"

section \<open>Chain resolution\<close>

text \<open>
  One pass of \<open>animateChain\<close> that found matches: the matched cells are removed, the score
  grows by \<open>matchedPuyos.length * 10 * (chainCount + 1)\<close>, the chain counters are set, gravity
  is applied.  The waits between the steps are presentation only.  The result is the grid
  handed to the next pass and the state.
\<close>

definition chainPass :: "Grid \<Rightarrow> int \<Rightarrow> Game \<Rightarrow> Grid \<times> Game" where
  "chainPass g chainCount s =
     (let matchedPuyos = findMatches g;
          s1 = s\<lparr>grid := g\<rparr>;
          newGrid = removeMatchedPuyos g matchedPuyos;
          s2 = s1\<lparr>grid := newGrid,
                  score := score s1 + int (length matchedPuyos) * 10 * (chainCount + 1),
                  chainCounter := chainCount + 1,
                  displayChainCounter := chainCount + 1\<rparr>;
          gridAfterGravity = applyGravity newGrid;
          s3 = s2\<lparr>grid := gridAfterGravity\<rparr>
      in (gridAfterGravity, s3))"

text \<open>
  \<open>animateChain\<close> calls itself until a pass finds no match.  Not returning is the value
  \<open>None\<close>; that it returns on every board is proved below.  The timer that clears the
  displayed chain count two seconds later is not part of the model.
\<close>

partial_function (option) animateChain :: "Grid \<Rightarrow> int \<Rightarrow> Game \<Rightarrow> Game option" where
  "animateChain g chainCount s =
     (let s0 = s\<lparr>isChaining := True\<rparr>;
          matchedPuyos = findMatches g
      in if length matchedPuyos > 0 then
           (case chainPass g chainCount s0 of
              (gridAfterGravity, s3) \<Rightarrow> animateChain gridAfterGravity (chainCount + 1) s3)
         else Some (s0\<lparr>chainCounter := 0, isChaining := False\<rparr>))"

declare animateChain.simps [code]

section \<open>The piece controller\<close>

text \<open>
  \<open>placePuyo\<close>: game over when a cell of the piece is outside the board; otherwise the two
  colours are written, gravity is applied, the chain is resolved and the front of the queue
  becomes the current piece.  The source starts \<open>animateChain\<close> without awaiting it; its
  writes and those of the rest of \<open>placePuyo\<close> touch different cells of the state, so the
  model runs the chain to its end first.
\<close>

definition placePuyo :: "color \<times> color \<Rightarrow> Game \<Rightarrow> Game option" where
  "placePuyo rnd s =
     (case currentPuyo s of
        None \<Rightarrow> Some s
      | Some cp \<Rightarrow>
          (let x = x_coord cp; y = y_coord cp;
               (x2, y2) = getSecondPuyoPosition x y (rotation cp)
           in if y < 0 \<or> y \<ge> GRID_ROWS \<or> x < 0 \<or> x \<ge> GRID_COLS \<or>
                 y2 < 0 \<or> y2 \<ge> GRID_ROWS \<or> x2 < 0 \<or> x2 \<ge> GRID_COLS
              then Some (s\<lparr>gameState := Over\<rparr>)
              else
                (let newGrid = applyGravity
                       (set_cell (set_cell (grid s) y x (color1 cp)) y2 x2 (color2 cp));
                     s1 = s\<lparr>grid := newGrid, currentPuyo := None, canHold := True\<rparr>
                 in case animateChain newGrid 0 s1 of
                      None \<Rightarrow> None
                    | Some s2 \<Rightarrow>
                        Some (s2\<lparr>currentPuyo := (case nextPuyos s of [] \<Rightarrow> None | p # _ \<Rightarrow> Some p),
                                 nextPuyos := tl (nextPuyos s) @ [generatePuyoPair rnd]\<rparr>))))"

text \<open>
  \<open>movePuyo\<close>: the candidate \<open>newPuyo\<close> is the current piece shifted by one cell; a
  valid candidate is committed, an invalid one is dropped, and for \<open>'down'\<close>
  \<open>placePuyo\<close> is called.  The function returns nothing.
\<close>

definition moved :: "direction \<Rightarrow> PuyoPair \<Rightarrow> PuyoPair" where
  "moved d cp =
     cp\<lparr>x_coord := (if d = Left then x_coord cp - 1
                    else if d = Right then x_coord cp + 1
                    else x_coord cp),
        y_coord := (if d = Down then y_coord cp + 1 else y_coord cp)\<rparr>"

definition movePuyo :: "direction \<Rightarrow> color \<times> color \<Rightarrow> Game \<Rightarrow> Game option" where
  "movePuyo d rnd s =
     (case currentPuyo s of
        None \<Rightarrow> Some s
      | Some cp \<Rightarrow>
          if gameState s \<noteq> Active \<or> isPaused s then Some s
          else
            (let newPuyo = moved d cp
             in if isValidMove (grid s) newPuyo then Some (s\<lparr>currentPuyo := Some newPuyo\<rparr>)
                else if d = Down then placePuyo rnd s
                else Some s))"

text \<open>
  JavaScript's \<open>%\<close> truncates towards zero: the result has the sign of the dividend.
\<close>

definition js_rem :: "int \<Rightarrow> int \<Rightarrow> int" where
  "js_rem a b = sgn a * (\<bar>a\<bar> mod \<bar>b\<bar>)"

datatype rotation_direction = RotLeft | RotRight

definition rotated :: "rotation_direction \<Rightarrow> PuyoPair \<Rightarrow> PuyoPair" where
  "rotated d cp =
     cp\<lparr>rotation := js_rem (rotation cp + (if d = RotLeft then - 1 else 1) + 4) 4\<rparr>"

definition rotatePuyo :: "rotation_direction \<Rightarrow> Game \<Rightarrow> Game" where
  "rotatePuyo d s =
     (case currentPuyo s of
        None \<Rightarrow> s
      | Some cp \<Rightarrow>
          if gameState s \<noteq> Active \<or> isPaused s then s
          else
            (let newPuyo = rotated d cp
             in if isValidMove (grid s) newPuyo then s\<lparr>currentPuyo := Some newPuyo\<rparr> else s))"

section \<open>Hold\<close>

definition holdPuyo :: "color \<times> color \<Rightarrow> Game \<Rightarrow> Game" where
  "holdPuyo rnd s =
     (case currentPuyo s of
        None \<Rightarrow> s
      | Some cp \<Rightarrow>
          if \<not> canHold s \<or> gameState s \<noteq> Active \<or> isPaused s then s
          else
            (case heldPuyo s of
               Some hp \<Rightarrow>
                 s\<lparr>currentPuyo := Some (hp\<lparr>x_coord := 2, y_coord := 0, rotation := 0\<rparr>),
                   heldPuyo := Some cp, canHold := False\<rparr>
             | None \<Rightarrow>
                 s\<lparr>heldPuyo := Some cp,
                   currentPuyo := (case nextPuyos s of [] \<Rightarrow> None | p # _ \<Rightarrow> Some p),
                   nextPuyos := tl (nextPuyos s) @ [generatePuyoPair rnd],
                   canHold := False\<rparr>))"

section \<open>Vocabulary of the properties\<close>

text \<open>Column \<open>c\<close> of a grid, top to bottom.\<close>

definition column :: "nat \<Rightarrow> Grid \<Rightarrow> PuyoColor list" where
  "column c g = map (\<lambda>r. r ! c) g"

text \<open>A cell that holds a colour.\<close>

definition filled :: "PuyoColor \<Rightarrow> bool" where
  "filled v \<longleftrightarrow> v \<noteq> None"

text \<open>
  What the claims say of one column: the empty cells first (on top), then the filled cells
  in their order.
\<close>

definition compact :: "PuyoColor list \<Rightarrow> PuyoColor list" where
  "compact col = replicate (length (filter (\<lambda>v. \<not> filled v) col)) None @ filter filled col"

text \<open>The number of non-empty cells of a grid.\<close>

definition count_nonempty :: "Grid \<Rightarrow> nat" where
  "count_nonempty g = length (filter filled (concat g))"

text \<open>A position inside a grid: an existing row and a column of that row.\<close>

definition in_grid :: "Grid \<Rightarrow> int \<times> int \<Rightarrow> bool" where
  "in_grid g p \<longleftrightarrow>
     0 \<le> fst p \<and> nat (fst p) < length g \<and> 0 \<le> snd p \<and> nat (snd p) < length (g ! nat (fst p))"

text \<open>Both cells of a piece are inside the board.\<close>

definition in_bounds :: "PuyoPair \<Rightarrow> bool" where
  "in_bounds cp =
     (let (x2, y2) = getSecondPuyoPosition (x_coord cp) (y_coord cp) (rotation cp)
      in 0 \<le> y_coord cp \<and> y_coord cp < GRID_ROWS \<and> 0 \<le> x_coord cp \<and> x_coord cp < GRID_COLS \<and>
         0 \<le> y2 \<and> y2 < GRID_ROWS \<and> 0 \<le> x2 \<and> x2 < GRID_COLS)"

text \<open>The board after a piece has been written into it and gravity applied.\<close>

definition lock_grid :: "Grid \<Rightarrow> PuyoPair \<Rightarrow> Grid" where
  "lock_grid g cp =
     (let (x2, y2) = getSecondPuyoPosition (x_coord cp) (y_coord cp) (rotation cp)
      in applyGravity (set_cell (set_cell g (y_coord cp) (x_coord cp) (color1 cp)) y2 x2 (color2 cp)))"

text \<open>
  The player's actions on a piece, and runs of them in which no piece locks: an action locks
  when it is a Down move that reaches \<open>placePuyo\<close>.
\<close>

datatype action = Move direction | Rotate rotation_direction | Hold

fun perform :: "action \<Rightarrow> color \<times> color \<Rightarrow> Game \<Rightarrow> Game option" where
  "perform (Move d) rnd s = movePuyo d rnd s"
| "perform (Rotate d) rnd s = Some (rotatePuyo d s)"
| "perform Hold rnd s = Some (holdPuyo rnd s)"

definition locks :: "action \<Rightarrow> Game \<Rightarrow> bool" where
  "locks a s \<longleftrightarrow>
     a = Move Down \<and> gameState s = Active \<and> \<not> isPaused s \<and>
     (case currentPuyo s of None \<Rightarrow> False | Some cp \<Rightarrow> \<not> isValidMove (grid s) (moved Down cp))"

fun run_without_lock :: "(action \<times> (color \<times> color)) list \<Rightarrow> Game \<Rightarrow> Game option" where
  "run_without_lock [] s = Some s"
| "run_without_lock ((a, rnd) # rest) s =
     (if locks a s then None
      else case perform a rnd s of None \<Rightarrow> None | Some s' \<Rightarrow> run_without_lock rest s')"

text \<open>A state in which \<open>holdPuyo\<close> returns at once.\<close>

definition hold_refused :: "Game \<Rightarrow> bool" where
  "hold_refused s \<longleftrightarrow> currentPuyo s = None \<or> \<not> canHold s \<or> gameState s \<noteq> Active \<or> isPaused s"

text \<open>Two positions next to each other in one of the four directions.\<close>

definition adjacent :: "int \<times> int \<Rightarrow> int \<times> int \<Rightarrow> bool" where
  "adjacent p q \<longleftrightarrow> (\<exists>d \<in> set directions. q = (fst p + fst d, snd p + snd d))"

text \<open>Two adjacent cells of the board with the same content.\<close>

definition linked :: "Grid \<Rightarrow> ((int \<times> int) \<times> (int \<times> int)) set" where
  "linked g = {(p, q). p \<in> board_cells \<and> q \<in> board_cells \<and> adjacent p q \<and>
                       cell g (fst p) (snd p) = cell g (fst q) (snd q)}"

text \<open>The connected group of a position.\<close>

definition component :: "Grid \<Rightarrow> int \<times> int \<Rightarrow> (int \<times> int) set" where
  "component g p = {q. (p, q) \<in> rtrancl (linked g)}"

text \<open>The neighbours of \<open>c\<close> that one turn of the search loop pushes.\<close>

definition pushed :: "Grid \<Rightarrow> PuyoColor \<Rightarrow> (int \<times> int) set \<Rightarrow> int \<times> int \<Rightarrow> (int \<times> int) list" where
  "pushed g color visited c =
     filter (\<lambda>p. p \<in> board_cells \<and> cell g (fst p) (snd p) = color \<and> p \<notin> visited)
            (map (\<lambda>d. (fst c + fst d, snd c + snd d)) directions)"

text \<open>
  The state of one search: \<open>grp\<close> is the cells taken from the queue followed by the queue,
  the visited cells are those taken, everything found is in the group of the start cell, the
  neighbours of a visited cell have been found, and every cell found but the start was
  pushed by a visited neighbour.
\<close>

definition flood_inv ::
  "Grid \<Rightarrow> int \<times> int \<Rightarrow> (int \<times> int) list \<Rightarrow> (int \<times> int) list \<Rightarrow> (int \<times> int) set \<Rightarrow> bool" where
  "flood_inv g s0 grp queue visited \<longleftrightarrow>
     (\<exists>popped. grp = popped @ queue \<and> visited = set popped) \<and>
     grp \<noteq> [] \<and> hd grp = s0 \<and>
     set grp \<subseteq> component g s0 \<and>
     (\<forall>v \<in> visited. \<forall>q. (v, q) \<in> linked g \<longrightarrow> q \<in> set grp) \<and>
     (\<forall>n \<in> set grp. n = s0 \<or> (\<exists>v \<in> visited. adjacent v n))"

text \<open>A cell starts a search that is appended to the matches.\<close>

definition matching_start :: "Grid \<Rightarrow> int \<times> int \<Rightarrow> bool" where
  "matching_start g c \<longleftrightarrow>
     cell g (fst c) (snd c) \<noteq> None \<and>
     4 \<le> length (flood g (cell g (fst c) (snd c)) [c] [c] {})"

section \<open>Example boards and states\<close>

text \<open>Boards used to run the definitions on concrete inputs.\<close>

definition blank_row :: "PuyoColor list" where
  "blank_row = replicate (nat GRID_COLS) None"

definition board_floating :: Grid where
  "board_floating =
     [[Some Red, None, None, None, None, None]] @ replicate 4 blank_row @
     [[Some Green, Some Blue, None, None, None, None]] @ replicate 6 blank_row"

definition board_line4 :: Grid where
  "board_line4 =
     replicate 11 blank_row @ [[Some Red, Some Red, Some Red, Some Red, None, None]]"

definition board_square :: Grid where
  "board_square =
     replicate 10 blank_row @
     [[Some Red, Some Red, None, None, None, None], [Some Red, Some Red, None, None, None, None]]"

definition board_block6 :: Grid where
  "board_block6 =
     replicate 10 blank_row @
     [[Some Red, Some Red, Some Red, None, None, None],
      [Some Red, Some Red, Some Red, None, None, None]]"

definition board_red2 :: Grid where
  "board_red2 =
     replicate 11 blank_row @ [[Some Red, Some Red, None, None, None, None]]"

text \<open>A red run of three and a red cell diagonal to its end.\<close>

definition board_diagonal :: Grid where
  "board_diagonal =
     replicate 10 blank_row @
     [[None, None, None, Some Red, None, None],
      [Some Red, Some Red, Some Red, Some Blue, None, None]]"

text \<open>Columns 2 and 3 filled up to row 1, no two neighbours of one colour.\<close>

definition board_stacked :: Grid where
  "board_stacked =
     blank_row #
     concat (replicate 5 [[None, None, Some Red, Some Blue, None, None],
                          [None, None, Some Green, Some Yellow, None, None]]) @
     [[None, None, Some Red, Some Blue, None, None]]"

text \<open>The initial \<open>useState\<close> values, and a session started from them.\<close>

definition game0 :: Game where
  "game0 = \<lparr>grid = createEmptyGrid, gameState = Title, score = 0, currentPuyo = None,
            nextPuyos = [], chainCounter = 0, isPaused = False, heldPuyo = None,
            canHold = True, isChaining = False, displayChainCounter = 0\<rparr>"

definition started :: Game where
  "started = startGame (Purple, Purple) (Blue, Blue) (Yellow, Purple) (Green, Red) game0"

text \<open>The same session with the stacked board, the piece still at its spawn position.\<close>

definition stacked :: Game where
  "stacked = started\<lparr>grid := board_stacked\<rparr>"

definition after_lock :: Game where
  "after_lock =
     stacked\<lparr>grid := [None, None, Some Purple, Some Purple, None, None] # tl board_stacked,
             currentPuyo := Some (generatePuyoPair (Blue, Blue)),
             nextPuyos := [generatePuyoPair (Yellow, Purple), generatePuyoPair (Green, Red),
                           generatePuyoPair (Red, Red)]\<rparr>"

text \<open>
  A red piece lying on the bottom row, to the right of two red cells: its lock completes a
  run of four.
\<close>

definition red_lock :: Game where
  "red_lock = started\<lparr>grid := board_red2, currentPuyo :=
      Some \<lparr>color1 = Some Red, color2 = Some Red, x_coord = 2, y_coord = 11, rotation = 1\<rparr>\<rparr>"

text \<open>A piece in the middle of the empty board, pointing up.\<close>

definition midfield :: Game where
  "midfield = started\<lparr>currentPuyo :=
      Some \<lparr>color1 = Some Purple, color2 = Some Purple, x_coord = 2, y_coord = 5, rotation = 0\<rparr>\<rparr>"

text \<open>The started session after a hold, a Down move and a rotation to the right.\<close>

definition held_and_moved :: Game where
  "held_and_moved =
     started\<lparr>heldPuyo := Some (generatePuyoPair (Purple, Purple)),
             currentPuyo := Some \<lparr>color1 = Some Blue, color2 = Some Blue,
                                   x_coord = 2, y_coord = 1, rotation = 1\<rparr>,
             nextPuyos := [generatePuyoPair (Yellow, Purple), generatePuyoPair (Green, Red),
                           generatePuyoPair (Red, Red)],
             canHold := False\<rparr>"

section \<open>Properties of gravity\<close>

lemma filled_simps [simp]: "filled None = False" "filled (Some c) = True"
  by (simp_all add: filled_def)

lemma compact_alt:
  "compact col = replicate (length col - length (filter filled col)) None @ filter filled col"
  using sum_length_filter_compl [of filled col] by (simp add: compact_def)

lemma length_column [simp]: "length (column c g) = length g"
  by (simp add: column_def)

lemma column_set_cell_same:
  "0 \<le> y \<Longrightarrow> nat y < length g \<Longrightarrow> 0 \<le> x \<Longrightarrow> nat x < length (g ! nat y) \<Longrightarrow>
   column (nat x) (set_cell g y x v) = (column (nat x) g)[nat y := v]"
  by (simp add: column_def set_cell_def map_update)

lemma column_set_cell_other:
  "c \<noteq> nat x \<Longrightarrow> column c (set_cell g y x v) = column c g"
proof (cases "nat y < length g")
  case True
  assume "c \<noteq> nat x"
  with True show ?thesis
    by (simp add: column_def set_cell_def map_update list_update_same_conv)
next
  case False
  then show ?thesis by (simp add: set_cell_def list_update_beyond)
qed

lemma rect_set_cell: "rect h w g \<Longrightarrow> rect h w (set_cell g y x v)"
proof (cases "nat y < length g")
  case True
  assume r: "rect h w g"
  have "set (g[nat y := (g ! nat y)[nat x := v]]) \<subseteq> insert ((g ! nat y)[nat x := v]) (set g)"
    by (rule set_update_subset_insert)
  moreover have "length ((g ! nat y)[nat x := v]) = w"
    using r True by (simp add: rect_def)
  ultimately show ?thesis using r by (auto simp: rect_def set_cell_def)
next
  case False
  then show "rect h w g \<Longrightarrow> ?thesis" by (simp add: set_cell_def list_update_beyond)
qed

lemma cell_column: "0 \<le> y \<Longrightarrow> nat y < length g \<Longrightarrow> cell g y x = column (nat x) g ! nat y"
  by (simp add: cell_def column_def)

lemma rect_row_length: "rect h w g \<Longrightarrow> i < h \<Longrightarrow> length (g ! i) = w"
  by (simp add: rect_def)

text \<open>The loop on one column, seen as a list.\<close>

lemma gravity_rows_inv:
  "rect h w g \<Longrightarrow> 0 \<le> col \<Longrightarrow> nat col < w \<Longrightarrow> - 1 \<le> row \<Longrightarrow> row \<le> e \<Longrightarrow> e < int h \<Longrightarrow>
   (\<forall>r. row < r \<and> r \<le> e \<longrightarrow> column (nat col) g ! nat r = None) \<Longrightarrow>
   rect h w (gravity_rows col row e g) \<and>
   (\<forall>c. c \<noteq> nat col \<longrightarrow> column c (gravity_rows col row e g) = column c g) \<and>
   column (nat col) (gravity_rows col row e g) =
     replicate (nat (e + 1) - length (filter filled (take (nat (row + 1)) (column (nat col) g)))) None
     @ filter filled (take (nat (row + 1)) (column (nat col) g))
     @ drop (nat (e + 1)) (column (nat col) g)"
proof (induction col row e g rule: gravity_rows.induct)
  case (1 col row e g)
  let ?c = "nat col"
  let ?col = "column ?c g"
  show ?case
  proof (cases "row \<ge> 0")
    case False
    with 1 have row: "row = -1" by simp
    have "replicate (nat (e + 1)) None = take (nat (e + 1)) ?col"
    proof (rule nth_equalityI)
      show "length (replicate (nat (e + 1)) None) = length (take (nat (e + 1)) ?col)"
        using "1.prems" by (simp add: rect_def)
    next
      fix i assume "i < length (replicate (nat (e + 1)) (None :: PuyoColor))"
      then have i: "i < nat (e + 1)" by simp
      then have "row < int i \<and> int i \<le> e" using row by auto
      with "1.prems"(7) have "?col ! nat (int i) = None" by blast
      with i show "replicate (nat (e + 1)) None ! i = take (nat (e + 1)) ?col ! i"
        by simp
    qed
    then show ?thesis using "1.prems" row
      by (subst (1 2 3) gravity_rows.simps) simp
  next
    case True
    have rowh: "nat row < h" using True "1.prems" by simp
    have leng: "length g = h" using "1.prems" by (simp add: rect_def)
    have cellrow: "cell g row col = ?col ! nat row"
      using True rowh leng by (simp add: cell_column)
    have take_Suc: "take (nat (row + 1)) ?col = take (nat row) ?col @ [?col ! nat row]"
      using True rowh leng by (simp add: nat_add_distrib take_Suc_conv_app_nth)
    have natrow: "nat (row - 1 + 1) = nat row" by simp
    show ?thesis
    proof (cases "cell g row col = None")
      case cn: True
      have pre: "\<forall>r. row - 1 < r \<and> r \<le> e \<longrightarrow> ?col ! nat r = None"
      proof (intro allI impI)
        fix r assume "row - 1 < r \<and> r \<le> e"
        then have "r = row \<or> (row < r \<and> r \<le> e)" by auto
        then show "?col ! nat r = None" using cn cellrow "1.prems"(7) by auto
      qed
      have IH: "rect h w (gravity_rows col (row - 1) e g) \<and>
         (\<forall>c. c \<noteq> ?c \<longrightarrow> column c (gravity_rows col (row - 1) e g) = column c g) \<and>
         column ?c (gravity_rows col (row - 1) e g) =
           replicate (nat (e + 1) - length (filter filled (take (nat (row - 1 + 1)) ?col))) None
           @ filter filled (take (nat (row - 1 + 1)) ?col)
           @ drop (nat (e + 1)) ?col"
        using "1.IH"(2) [OF True] cn "1.prems" pre True by simp
      have unfold: "gravity_rows col row e g = gravity_rows col (row - 1) e g"
        using True cn by (subst gravity_rows.simps) simp
      show ?thesis
        unfolding unfold using IH cn cellrow
        by (simp only: natrow take_Suc) simp
    next
      case cs: False
      then obtain v where v: "cell g row col = Some v" by auto
      have colw: "nat col < length (g ! nat row)"
        using "1.prems" rowh by (simp add: rect_def)
      have filt: "filter filled (take (nat (row + 1)) ?col)
                  = filter filled (take (nat row) ?col) @ [Some v]"
        using v cellrow by (simp add: take_Suc)
      have len_filt: "length (filter filled (take (nat row) ?col)) \<le> nat row"
        by (rule order_trans [OF length_filter_le]) simp
      show ?thesis
      proof (cases "row = e")
        case eq: True
        let ?R = "gravity_rows col (row - 1) (e - 1) g"
        have unfold: "gravity_rows col row e g = ?R"
          using True v eq by (subst gravity_rows.simps) simp
        have pre: "\<forall>r. row - 1 < r \<and> r \<le> e - 1 \<longrightarrow> ?col ! nat r = None"
          using eq by auto
        have nn: "cell g row col \<noteq> None" using v by simp
        have G: "(if row \<noteq> e
                  then set_cell (set_cell g e col (cell g row col)) row col None else g) = g"
          using eq by simp
        note ih = "1.IH"(1) [OF True nn, unfolded G]
        have IH: "rect h w ?R \<and> (\<forall>c. c \<noteq> ?c \<longrightarrow> column c ?R = column c g) \<and>
           column ?c ?R =
             replicate (nat (e - 1 + 1) - length (filter filled (take (nat (row - 1 + 1)) ?col))) None
             @ filter filled (take (nat (row - 1 + 1)) ?col)
             @ drop (nat (e - 1 + 1)) ?col"
        proof (rule ih)
          show "rect h w g" "0 \<le> col" "nat col < w" by (fact "1.prems")+
          show "- 1 \<le> row - 1" using True by simp
          show "row - 1 \<le> e - 1" using eq by simp
          show "e - 1 < int h" using "1.prems" by simp
          show "\<forall>r. row - 1 < r \<and> r \<le> e - 1 \<longrightarrow> ?col ! nat r = None" by (fact pre)
        qed
        have dr: "drop (nat row) ?col = Some v # drop (nat (row + 1)) ?col"
        proof -
          have "?col ! nat row # drop (Suc (nat row)) ?col = drop (nat row) ?col"
            using rowh leng by (intro Cons_nth_drop_Suc) simp
          then show ?thesis using True v cellrow by (simp add: nat_add_distrib)
        qed
        have ne1: "nat (e - 1 + 1) = nat e" by simp
        have cnt: "nat (e + 1) - Suc (length (filter filled (take (nat row) ?col)))
                   = nat e - length (filter filled (take (nat row) ?col))"
          using True eq by (simp add: nat_add_distrib)
        have "column ?c ?R =
                replicate (nat e - length (filter filled (take (nat row) ?col))) None
                @ filter filled (take (nat row) ?col) @ drop (nat e) ?col"
          using IH by (simp only: natrow ne1)
        also have "drop (nat e) ?col = Some v # drop (nat (e + 1)) ?col"
          using dr eq by simp
        finally have "column ?c ?R =
                replicate (nat (e + 1) - length (filter filled (take (nat (row + 1)) ?col))) None
                @ filter filled (take (nat (row + 1)) ?col) @ drop (nat (e + 1)) ?col"
          by (simp only: filt length_append list.size cnt) simp
        then show ?thesis
          unfolding unfold using IH by blast
      next
        case ne: False
        let ?g' = "set_cell (set_cell g e col (Some v)) row col None"
        let ?R = "gravity_rows col (row - 1) (e - 1) ?g'"
        have unfold: "gravity_rows col row e g = ?R"
          using True v ne by (subst gravity_rows.simps) simp
        have lt: "row < e" using ne "1.prems" by simp
        have eh: "nat e < h" "0 \<le> e" using "1.prems" lt True by auto
        have r1: "rect h w (set_cell g e col (Some v))"
          using "1.prems" by (simp add: rect_set_cell)
        have r2: "rect h w ?g'" using r1 by (simp add: rect_set_cell)
        have c1: "column ?c (set_cell g e col (Some v)) = ?col[nat e := Some v]"
          using eh leng "1.prems" by (simp add: column_set_cell_same rect_def)
        have c2: "column ?c ?g' = ?col[nat e := Some v, nat row := None]"
          using r1 rowh True "1.prems" c1
          by (simp add: column_set_cell_same rect_def)
        have oth: "\<And>c. c \<noteq> ?c \<Longrightarrow> column c ?g' = column c g"
          by (simp add: column_set_cell_other)
        have pre: "\<forall>r. row - 1 < r \<and> r \<le> e - 1 \<longrightarrow> column ?c ?g' ! nat r = None"
        proof (intro allI impI)
          fix r assume a: "row - 1 < r \<and> r \<le> e - 1"
          show "column ?c ?g' ! nat r = None"
          proof (cases "r = row")
            case True
            then show ?thesis using c2 rowh leng by simp
          next
            case False
            with a have b: "row < r \<and> r \<le> e" "nat r \<noteq> nat row" "nat r \<noteq> nat e"
              using \<open>0 \<le> row\<close> by auto
            with "1.prems"(7) have "?col ! nat r = None" by blast
            with b show ?thesis using c2 by simp
          qed
        qed
        have nn: "cell g row col \<noteq> None" using v by simp
        have G: "(if row \<noteq> e
                  then set_cell (set_cell g e col (cell g row col)) row col None else g) = ?g'"
          using ne v by simp
        note ih = "1.IH"(1) [OF True nn, unfolded G]
        have IH: "rect h w ?R \<and> (\<forall>c. c \<noteq> ?c \<longrightarrow> column c ?R = column c ?g') \<and>
           column ?c ?R =
             replicate (nat (e - 1 + 1) - length (filter filled (take (nat (row - 1 + 1)) (column ?c ?g')))) None
             @ filter filled (take (nat (row - 1 + 1)) (column ?c ?g'))
             @ drop (nat (e - 1 + 1)) (column ?c ?g')"
        proof (rule ih)
          show "rect h w ?g'" by (fact r2)
          show "0 \<le> col" "nat col < w" by (fact "1.prems")+
          show "- 1 \<le> row - 1" using True by simp
          show "row - 1 \<le> e - 1" using lt by simp
          show "e - 1 < int h" using "1.prems" by simp
          show "\<forall>r. row - 1 < r \<and> r \<le> e - 1 \<longrightarrow> column ?c ?g' ! nat r = None" by (fact pre)
        qed
        have tk: "take (nat row) (column ?c ?g') = take (nat row) ?col"
          using lt True c2 by simp
        have dr: "drop (nat e) (column ?c ?g') = Some v # drop (nat (e + 1)) ?col"
        proof -
          have "drop (nat e) (column ?c ?g') = drop (nat e) (?col[nat e := Some v])"
            using c2 lt True by simp
          also have "\<dots> = Some v # drop (Suc (nat e)) ?col"
            using eh leng by (simp add: drop_update_cancel Cons_nth_drop_Suc [symmetric] upd_conv_take_nth_drop)
          finally show ?thesis using eh by (simp add: nat_add_distrib)
        qed
        have ne1: "nat (e - 1 + 1) = nat e" by simp
        have cnt: "nat (e + 1) - Suc (length (filter filled (take (nat row) ?col)))
                   = nat e - length (filter filled (take (nat row) ?col))"
          using eh by (simp add: nat_add_distrib)
        have "column ?c ?R =
                replicate (nat e - length (filter filled (take (nat row) ?col))) None
                @ filter filled (take (nat row) ?col) @ drop (nat e) (column ?c ?g')"
          using IH by (simp only: natrow ne1 tk)
        also have "drop (nat e) (column ?c ?g') = Some v # drop (nat (e + 1)) ?col"
          by (fact dr)
        finally have "column ?c ?R =
                replicate (nat (e + 1) - length (filter filled (take (nat (row + 1)) ?col))) None
                @ filter filled (take (nat (row + 1)) ?col) @ drop (nat (e + 1)) ?col"
          by (simp only: filt length_append list.size cnt) simp
        then show ?thesis
          unfolding unfold using IH oth by simp
      qed
    qed
  qed
qed

lemma length_compact [simp]: "length (compact col) = length col"
  using sum_length_filter_compl [of filled col] by (simp add: compact_def)

lemma filter_compact [simp]:
  "filter filled (compact col) = filter filled col"
  by (simp add: compact_def)

lemma compact_idem: "compact (compact col) = compact col"
  by (simp add: compact_alt [of "compact col"]) (simp add: compact_alt)

lemma gravity_rows_column:
  assumes "rect h w g" "c < w"
  shows "rect h w (gravity_rows (int c) (int h - 1) (int h - 1) g)"
    and "c' \<noteq> c \<Longrightarrow> column c' (gravity_rows (int c) (int h - 1) (int h - 1) g) = column c' g"
    and "column c (gravity_rows (int c) (int h - 1) (int h - 1) g) = compact (column c g)"
proof -
  have len: "length (column c g) = h" using assms by (simp add: rect_def)
  have inv: "rect h w (gravity_rows (int c) (int h - 1) (int h - 1) g) \<and>
   (\<forall>c'. c' \<noteq> nat (int c) \<longrightarrow> column c' (gravity_rows (int c) (int h - 1) (int h - 1) g) = column c' g) \<and>
   column (nat (int c)) (gravity_rows (int c) (int h - 1) (int h - 1) g) =
     replicate (nat (int h - 1 + 1) - length (filter filled (take (nat (int h - 1 + 1)) (column (nat (int c)) g)))) None
     @ filter filled (take (nat (int h - 1 + 1)) (column (nat (int c)) g))
     @ drop (nat (int h - 1 + 1)) (column (nat (int c)) g)"
    by (rule gravity_rows_inv [OF assms(1)]) (use assms in auto)
  show "rect h w (gravity_rows (int c) (int h - 1) (int h - 1) g)" using inv by blast
  show "c' \<noteq> c \<Longrightarrow> column c' (gravity_rows (int c) (int h - 1) (int h - 1) g) = column c' g"
    using inv by simp
  show "column c (gravity_rows (int c) (int h - 1) (int h - 1) g) = compact (column c g)"
    using inv len by (simp add: compact_alt)
qed

lemma gravity_cols:
  "rect h w g \<Longrightarrow> n \<le> w \<Longrightarrow>
   rect h w (foldl (\<lambda>ng col. gravity_rows (int col) (int h - 1) (int h - 1) ng) g [0..<n]) \<and>
   (\<forall>c. column c (foldl (\<lambda>ng col. gravity_rows (int col) (int h - 1) (int h - 1) ng) g [0..<n])
        = (if c < n then compact (column c g) else column c g))"
proof (induction n)
  case 0
  then show ?case by simp
next
  case (Suc n)
  let ?G = "foldl (\<lambda>ng col. gravity_rows (int col) (int h - 1) (int h - 1) ng) g [0..<n]"
  have r: "rect h w ?G" and cols: "\<And>c. column c ?G = (if c < n then compact (column c g) else column c g)"
    using Suc by simp_all
  have n: "n < w" using Suc.prems by simp
  note step = gravity_rows_column [OF r n]
  show ?case
  proof (intro conjI allI)
    show "rect h w (foldl (\<lambda>ng col. gravity_rows (int col) (int h - 1) (int h - 1) ng) g [0..<Suc n])"
      using step(1) by simp
    fix c
    show "column c (foldl (\<lambda>ng col. gravity_rows (int col) (int h - 1) (int h - 1) ng) g [0..<Suc n])
          = (if c < Suc n then compact (column c g) else column c g)"
    proof (cases "c = n")
      case True
      then show ?thesis using step(3) cols [of n] by simp
    next
      case False
      then show ?thesis using step(2) [of c] cols [of c] by auto
    qed
  qed
qed

lemma applyGravity_columns:
  assumes "rect h w g" "0 < h"
  shows "rect h w (applyGravity g)"
    and "c < w \<Longrightarrow> column c (applyGravity g) = compact (column c g)"
proof -
  obtain r rs where g: "g = r # rs" using assms by (cases g) (auto simp: rect_def)
  have w: "length r = w" and h: "int (length g) = int h" using assms(1) g by (auto simp: rect_def)
  have eq: "applyGravity g = foldl (\<lambda>ng col. gravity_rows (int col) (int h - 1) (int h - 1) ng) g [0..<w]"
    unfolding applyGravity_def Let_def h using g w by simp
  show "rect h w (applyGravity g)" unfolding eq using gravity_cols [OF assms(1), of w] by simp
  show "c < w \<Longrightarrow> column c (applyGravity g) = compact (column c g)"
    unfolding eq using gravity_cols [OF assms(1), of w] by simp
qed

lemma grid_eqI:
  assumes "rect h w g" "rect h w g'" "\<And>c. c < w \<Longrightarrow> column c g = column c g'"
  shows "g = g'"
proof (rule nth_equalityI)
  show "length g = length g'" using assms by (simp add: rect_def)
next
  fix y assume y: "y < length g"
  then have y': "y < length g'" using assms by (simp add: rect_def)
  show "g ! y = g' ! y"
  proof (rule nth_equalityI)
    show "length (g ! y) = length (g' ! y)" using assms y y' by (simp add: rect_def)
  next
    fix x assume "x < length (g ! y)"
    then have "x < w" using assms y by (simp add: rect_def)
    then have "column x g ! y = column x g' ! y" using assms(3) by simp
    then show "g ! y ! x = g' ! y ! x" using y y' by (simp add: column_def)
  qed
qed

lemma length_filter_sum:
  "length (filter P xs) = (\<Sum>i<length xs. if P (xs ! i) then 1 else 0)"
proof (induction xs rule: rev_induct)
  case Nil
  then show ?case by simp
next
  case (snoc x xs)
  have "(\<Sum>i<length xs. if P ((xs @ [x]) ! i) then 1 else 0 :: nat)
        = (\<Sum>i<length xs. if P (xs ! i) then 1 else 0)"
    by (rule sum.cong) (simp_all add: nth_append)
  then show ?case using snoc by simp
qed

lemma count_nonempty_columns:
  "rect h w g \<Longrightarrow>
   count_nonempty g = (\<Sum>c<w. length (filter filled (column c g)))"
proof (induction g arbitrary: h)
  case Nil
  then show ?case by (simp add: count_nonempty_def column_def)
next
  case (Cons r g)
  have r: "length r = w" and g: "rect (length g) w g" using Cons.prems by (auto simp: rect_def)
  have "count_nonempty (r # g) = length (filter filled r) + count_nonempty g"
    by (simp add: count_nonempty_def)
  also have "\<dots> = (\<Sum>c<w. if filled (r ! c) then 1 else 0)
                   + (\<Sum>c<w. length (filter filled (column c g)))"
    using Cons.IH [OF g] r by (simp add: length_filter_sum [of _ r])
  also have "\<dots> = (\<Sum>c<w. (if filled (r ! c) then 1 else 0)
                                 + length (filter filled (column c g)))"
    by (simp add: sum.distrib)
  also have "\<dots> = (\<Sum>c<w. length (filter filled (column c (r # g))))"
    by (rule sum.cong) (simp_all add: column_def)
  finally show ?case .
qed

lemma count_nonempty_applyGravity:
  assumes "rect h w g" "0 < h"
  shows "count_nonempty (applyGravity g) = count_nonempty g"
proof -
  have "count_nonempty (applyGravity g)
        = (\<Sum>c<w. length (filter filled (column c (applyGravity g))))"
    by (rule count_nonempty_columns [OF applyGravity_columns(1) [OF assms]])
  also have "\<dots> = (\<Sum>c<w. length (filter filled (column c g)))"
    by (rule sum.cong) (simp_all add: applyGravity_columns(2) [OF assms])
  also have "\<dots> = count_nonempty g"
    by (rule count_nonempty_columns [OF assms(1), symmetric])
  finally show ?thesis .
qed

lemma applyGravity_idem_rect:
  assumes "rect h w g" "0 < h"
  shows "applyGravity (applyGravity g) = applyGravity g"
proof (rule grid_eqI)
  note r = applyGravity_columns(1) [OF assms]
  show "rect h w (applyGravity (applyGravity g))" by (rule applyGravity_columns(1) [OF r assms(2)])
  show "rect h w (applyGravity g)" by (rule r)
  fix c assume c: "c < w"
  show "column c (applyGravity (applyGravity g)) = column c (applyGravity g)"
    using applyGravity_columns(2) [OF r assms(2) c] applyGravity_columns(2) [OF assms c]
    by (simp add: compact_idem)
qed

lemma wf_grid_rect: "wf_grid g \<Longrightarrow> rect (nat GRID_ROWS) (nat GRID_COLS) g"
  by (simp add: wf_grid_def)

lemma GRID_ROWS_pos: "0 < nat GRID_ROWS"
  by (simp add: GRID_ROWS_def)

text \<open>
  Claim C7.  On every board, \<open>applyGravity\<close> compacts each column on its own: the
  column of the result is the empty cells followed by the filled cells of the column in
  their vertical order.  The board keeps its dimensions, the sequence of colours of every
  column is unchanged, and so is the number of non-empty cells.
\<close>

theorem applyGravity_compacts:
  "wf_grid g \<Longrightarrow>
     wf_grid (applyGravity g) \<and>
     (\<forall>c < nat GRID_COLS. column c (applyGravity g) = compact (column c g)) \<and>
     (\<forall>c < nat GRID_COLS. filter filled (column c (applyGravity g)) = filter filled (column c g)) \<and>
     count_nonempty (applyGravity g) = count_nonempty g"
proof -
  assume "wf_grid g"
  then have r: "rect (nat GRID_ROWS) (nat GRID_COLS) g"
    by (rule wf_grid_rect)
  have h: "0 < nat GRID_ROWS"
    by (rule GRID_ROWS_pos)
  have cols: "\<And>c. c < nat GRID_COLS \<Longrightarrow> column c (applyGravity g) = compact (column c g)"
    by (rule applyGravity_columns(2) [OF r h])
  have "wf_grid (applyGravity g)"
    unfolding wf_grid_def by (rule applyGravity_columns(1) [OF r h])
  moreover have "\<forall>c < nat GRID_COLS. filter filled (column c (applyGravity g)) = filter filled (column c g)"
    by (simp add: cols)
  moreover have "count_nonempty (applyGravity g) = count_nonempty g"
    by (rule count_nonempty_applyGravity [OF r h])
  ultimately show ?thesis using cols by blast
qed

theorem applyGravity_compacts_witness:
  "wf_grid board_floating \<and>
   wf_grid (applyGravity board_floating) \<and>
   column 0 (applyGravity board_floating) = replicate 10 None @ [Some Red, Some Green] \<and>
   column 1 (applyGravity board_floating) = replicate 11 None @ [Some Blue] \<and>
   count_nonempty (applyGravity board_floating) = 3"
proof -
  have wf: "wf_grid board_floating" by code_simp
  have c0: "compact (column 0 board_floating) = replicate 10 None @ [Some Red, Some Green]"
    by code_simp
  have c1: "compact (column 1 board_floating) = replicate 11 None @ [Some Blue]"
    by code_simp
  have n: "count_nonempty board_floating = 3" by code_simp
  have cols: "(0::nat) < nat GRID_COLS" "(1::nat) < nat GRID_COLS" by (simp_all add: GRID_COLS_def)
  from applyGravity_compacts [OF wf] cols c0 c1 n wf show ?thesis by simp
qed

text \<open>
  Claim C8.  On every board, applying gravity twice gives the same board as applying it
  once.
\<close>

theorem applyGravity_idempotent:
  "wf_grid g \<Longrightarrow> applyGravity (applyGravity g) = applyGravity g"
  by (rule applyGravity_idem_rect [OF wf_grid_rect GRID_ROWS_pos])

theorem applyGravity_idempotent_witness:
  "wf_grid board_floating \<and>
   applyGravity (applyGravity board_floating) = applyGravity board_floating \<and>
   applyGravity board_floating =
     replicate 10 blank_row @
     [[Some Red, None, None, None, None, None], [Some Green, Some Blue, None, None, None, None]]"
proof -
  have wf: "wf_grid board_floating" by code_simp
  have v: "applyGravity board_floating =
     replicate 10 blank_row @
     [[Some Red, None, None, None, None, None], [Some Green, Some Blue, None, None, None, None]]"
    by code_simp
  from applyGravity_idempotent [OF wf] wf v show ?thesis by simp
qed

section \<open>Properties of removal\<close>

lemma map_length_set_cell [simp]: "map length (set_cell g y x v) = map length g"
  by (cases "nat y < length g") (simp_all add: set_cell_def map_update list_update_beyond list_update_same_conv)

lemma length_set_cell [simp]: "length (set_cell g y x v) = length g"
  by (simp add: set_cell_def)

lemma length_row_set_cell [simp]: "length (set_cell g y x v ! i) = length (g ! i)"
  by (cases "nat y < length g"; cases "i = nat y")
     (simp_all add: set_cell_def list_update_beyond)

lemma in_grid_set_cell [simp]: "in_grid (set_cell g y x v) p = in_grid g p"
  by (simp add: in_grid_def)

lemma cell_set_cell:
  "in_grid g (y, x) \<Longrightarrow> in_grid g (y', x') \<Longrightarrow>
   cell (set_cell g y x v) y' x' = (if y' = y \<and> x' = x then v else cell g y' x')"
  by (auto simp: in_grid_def cell_def set_cell_def nth_list_update)

lemma grid_ext:
  assumes "map length g = map length g'"
    and "\<And>p. in_grid g p \<Longrightarrow> cell g (fst p) (snd p) = cell g' (fst p) (snd p)"
  shows "g = g'"
proof (rule nth_equalityI)
  show len: "length g = length g'" using assms(1) by (rule map_eq_imp_length_eq)
  fix i assume i: "i < length g"
  have "map length g ! i = length (g ! i)" using i by simp
  moreover have "map length g' ! i = length (g' ! i)" using i len by simp
  ultimately have li: "length (g ! i) = length (g' ! i)" using assms(1) by simp
  show "g ! i = g' ! i"
  proof (rule nth_equalityI)
    show "length (g ! i) = length (g' ! i)" by (rule li)
    fix j assume j: "j < length (g ! i)"
    have "in_grid g (int i, int j)" using i j by (simp add: in_grid_def)
    from assms(2) [OF this] show "g ! i ! j = g' ! i ! j" by (simp add: cell_def)
  qed
qed

lemma removeMatchedPuyos_Cons:
  "removeMatchedPuyos g ((y, x) # ms) = removeMatchedPuyos (set_cell g y x None) ms"
  by (simp add: removeMatchedPuyos_def)

lemma removeMatchedPuyos_Nil: "removeMatchedPuyos g [] = g"
  by (simp add: removeMatchedPuyos_def)

lemma removeMatchedPuyos_shape:
  "map length (removeMatchedPuyos g ms) = map length g"
proof (induction ms arbitrary: g)
  case Nil
  show ?case by (simp add: removeMatchedPuyos_Nil)
next
  case (Cons m ms)
  obtain y x where m: "m = (y, x)" by (cases m)
  show ?case unfolding m removeMatchedPuyos_Cons Cons.IH by simp
qed

lemma in_grid_shape: "map length g = map length g' \<Longrightarrow> in_grid g p = in_grid g' p"
proof -
  assume a: "map length g = map length g'"
  then have len: "length g = length g'" by (rule map_eq_imp_length_eq)
  have "\<And>i. i < length g \<Longrightarrow> length (g ! i) = length (g' ! i)"
  proof -
    fix i assume i: "i < length g"
    then have "map length g ! i = length (g ! i)" by simp
    moreover have "map length g' ! i = length (g' ! i)" using i len by simp
    ultimately show "length (g ! i) = length (g' ! i)" using a by simp
  qed
  then show ?thesis using len by (auto simp: in_grid_def)
qed

lemma in_grid_removeMatchedPuyos: "in_grid (removeMatchedPuyos g ms) p = in_grid g p"
  by (rule in_grid_shape [OF removeMatchedPuyos_shape])

lemma removeMatchedPuyos_cell:
  "\<forall>p \<in> set ms. in_grid g p \<Longrightarrow> in_grid g p \<Longrightarrow>
   cell (removeMatchedPuyos g ms) (fst p) (snd p)
     = (if p \<in> set ms then None else cell g (fst p) (snd p))"
proof (induction ms arbitrary: g)
  case Nil
  then show ?case by (simp add: removeMatchedPuyos_Nil)
next
  case (Cons m ms)
  obtain y x where m: "m = (y, x)" by (cases m)
  obtain y' x' where p: "p = (y', x')" by (cases p)
  have a: "\<forall>q \<in> set ms. in_grid (set_cell g y x None) q" using Cons.prems by simp
  have b: "in_grid (set_cell g y x None) p" using Cons.prems by simp
  have mg: "in_grid g (y, x)" using Cons.prems m by simp
  have c: "cell (set_cell g y x None) y' x' = (if y' = y \<and> x' = x then None else cell g y' x')"
    using cell_set_cell [OF mg] Cons.prems(2) p by simp
  have "cell (removeMatchedPuyos g (m # ms)) (fst p) (snd p)
        = cell (removeMatchedPuyos (set_cell g y x None) ms) (fst p) (snd p)"
    by (simp add: m removeMatchedPuyos_Cons)
  also have "\<dots> = (if p \<in> set ms then None else cell (set_cell g y x None) (fst p) (snd p))"
    by (rule Cons.IH [OF a b])
  also have "\<dots> = (if p \<in> set (m # ms) then None else cell g (fst p) (snd p))"
    unfolding m p fst_conv snd_conv c by auto
  finally show ?case .
qed

text \<open>
  Claim C10.  For every grid and every list of positions of that grid,
  \<open>removeMatchedPuyos\<close> keeps the shape of the grid, sets exactly the listed positions
  to empty and leaves every other cell as it was; a list with repeated positions gives the
  same grid as the list without the repetitions.
\<close>

theorem removeMatchedPuyos_frame:
  "\<forall>p \<in> set ms. in_grid g p \<Longrightarrow>
     map length (removeMatchedPuyos g ms) = map length g \<and>
     (\<forall>p. in_grid g p \<longrightarrow>
        cell (removeMatchedPuyos g ms) (fst p) (snd p)
          = (if p \<in> set ms then None else cell g (fst p) (snd p))) \<and>
     removeMatchedPuyos g ms = removeMatchedPuyos g (remdups ms)"
proof -
  assume ms: "\<forall>p \<in> set ms. in_grid g p"
  then have ms': "\<forall>p \<in> set (remdups ms). in_grid g p" by simp
  have "removeMatchedPuyos g ms = removeMatchedPuyos g (remdups ms)"
  proof (rule grid_ext)
    show "map length (removeMatchedPuyos g ms) = map length (removeMatchedPuyos g (remdups ms))"
      by (simp add: removeMatchedPuyos_shape)
    fix p assume "in_grid (removeMatchedPuyos g ms) p"
    then have p: "in_grid g p" by (simp add: in_grid_removeMatchedPuyos)
    show "cell (removeMatchedPuyos g ms) (fst p) (snd p)
          = cell (removeMatchedPuyos g (remdups ms)) (fst p) (snd p)"
      using removeMatchedPuyos_cell [OF ms p] removeMatchedPuyos_cell [OF ms' p] by simp
  qed
  then show ?thesis
    using removeMatchedPuyos_cell [OF ms] by (simp add: removeMatchedPuyos_shape)
qed

section \<open>Properties of match detection\<close>

text \<open>Every matched position is a non-empty cell of the board.\<close>

lemma flood_members:
  "p \<in> set (flood g color grp queue visited) \<Longrightarrow>
   p \<in> set grp \<or> (p \<in> board_cells \<and> cell g (fst p) (snd p) = color)"
proof (induction g color grp queue visited rule: flood.induct)
  case (1 g color grp queue visited)
  show ?case
  proof (cases queue)
    case Nil
    with "1.prems" show ?thesis by (simp add: flood.simps)
  next
    case (Cons c rest)
    obtain cy cx where c: "c = (cy, cx)" by (cases c)
    obtain new where new: "visit_neighbours g color (insert (cy, cx) visited) cy cx directions (grp, rest)
                            = (grp @ new, rest @ new)"
      and sub: "set new \<subseteq> {p \<in> board_cells. p \<notin> insert (cy, cx) visited \<and> cell g (fst p) (snd p) = color \<and>
                          (\<exists>d \<in> set directions. p = (cy + fst d, cx + snd d))}"
      using visit_neighbours_appends [of g color "insert (cy, cx) visited" cy cx directions grp rest] by blast
    have eq: "flood g color grp queue visited = flood g color (grp @ new) (rest @ new) (insert (cy, cx) visited)"
      by (subst flood.simps) (simp add: Cons c new)
    have "p \<in> set (grp @ new) \<or> (p \<in> board_cells \<and> cell g (fst p) (snd p) = color)"
      by (rule "1.IH" [OF Cons c [symmetric] refl new [symmetric] refl]) (use "1.prems" eq in simp)
    then show ?thesis using sub by auto
  qed
qed

lemma scan_cell_members:
  assumes "c \<in> board_cells"
    and "\<forall>p \<in> set acc. p \<in> board_cells \<and> cell g (fst p) (snd p) \<noteq> None"
  shows "\<forall>p \<in> set (scan_cell g acc c). p \<in> board_cells \<and> cell g (fst p) (snd p) \<noteq> None"
proof -
  obtain y x where c: "c = (y, x)" by (cases c)
  let ?F = "flood g (cell g y x) [(y, x)] [(y, x)] {}"
  show ?thesis
  proof (cases "cell g y x \<noteq> None \<and> length ?F \<ge> 4")
    case False
    then have "scan_cell g acc c = acc" by (auto simp: scan_cell_def c Let_def)
    then show ?thesis using assms(2) by simp
  next
    case True
    then have eq: "scan_cell g acc c = acc @ ?F" by (simp add: scan_cell_def c Let_def)
    have "\<forall>p \<in> set ?F. p \<in> board_cells \<and> cell g (fst p) (snd p) \<noteq> None"
    proof
      fix p assume "p \<in> set ?F"
      from flood_members [OF this]
      have "p = (y, x) \<or> (p \<in> board_cells \<and> cell g (fst p) (snd p) = cell g y x)"
        by simp
      then show "p \<in> board_cells \<and> cell g (fst p) (snd p) \<noteq> None"
        using True assms(1) c by auto
    qed
    then show ?thesis using assms(2) unfolding eq by (simp add: ball_Un)
  qed
qed

lemma foldl_scan_cell_members:
  "\<forall>c \<in> set cs. c \<in> board_cells \<Longrightarrow>
   \<forall>p \<in> set acc. p \<in> board_cells \<and> cell g (fst p) (snd p) \<noteq> None \<Longrightarrow>
   \<forall>p \<in> set (foldl (scan_cell g) acc cs). p \<in> board_cells \<and> cell g (fst p) (snd p) \<noteq> None"
proof (induction cs arbitrary: acc)
  case Nil
  then show ?case by simp
next
  case (Cons c cs)
  have "\<forall>p \<in> set (scan_cell g acc c). p \<in> board_cells \<and> cell g (fst p) (snd p) \<noteq> None"
    by (rule scan_cell_members) (use Cons.prems in simp_all)
  then have "\<forall>p \<in> set (foldl (scan_cell g) (scan_cell g acc c) cs).
               p \<in> board_cells \<and> cell g (fst p) (snd p) \<noteq> None"
    by (intro Cons.IH) (use Cons.prems(1) in simp_all)
  then show ?case by (simp only: foldl_Cons)
qed

lemma all_cells: "set (List.product [0 .. GRID_ROWS - 1] [0 .. GRID_COLS - 1]) = board_cells"
  by (simp add: board_cells_def)

lemma findMatches_members:
  "p \<in> set (findMatches g) \<Longrightarrow> p \<in> board_cells \<and> cell g (fst p) (snd p) \<noteq> None"
proof -
  have "\<forall>p \<in> set (findMatches g). p \<in> board_cells \<and> cell g (fst p) (snd p) \<noteq> None"
    unfolding findMatches_def
    by (rule foldl_scan_cell_members) (simp_all add: board_cells_def)
  then show "p \<in> set (findMatches g) \<Longrightarrow> p \<in> board_cells \<and> cell g (fst p) (snd p) \<noteq> None"
    by blast
qed

lemma board_cells_in_grid: "wf_grid g \<Longrightarrow> p \<in> board_cells \<Longrightarrow> in_grid g p"
proof -
  assume wf: "wf_grid g" and p: "p \<in> board_cells"
  obtain y x where yx: "p = (y, x)" by (cases p)
  have b: "0 \<le> y" "y < 12" "0 \<le> x" "x < 6"
    using p yx by (simp_all add: board_cells_def GRID_ROWS_def GRID_COLS_def)
  have len: "length g = 12" and rows: "\<And>r. r \<in> set g \<Longrightarrow> length r = 6"
    using wf by (simp_all add: wf_grid_def rect_def GRID_ROWS_def GRID_COLS_def)
  have y: "nat y < length g" using b len by simp
  then have "length (g ! nat y) = 6" by (intro rows nth_mem)
  then show ?thesis using b y by (simp add: in_grid_def yx)
qed

lemma findMatches_in_grid: "wf_grid g \<Longrightarrow> \<forall>p \<in> set (findMatches g). in_grid g p"
  using findMatches_members board_cells_in_grid by blast

section \<open>Termination and frame of the chain resolution\<close>

lemma count_nonempty_rows: "count_nonempty g = sum_list (map (\<lambda>r. length (filter filled r)) g)"
  by (induction g) (simp_all add: count_nonempty_def)

lemma length_filter_update_None:
  "x < length r \<Longrightarrow>
   length (filter filled (r[x := None])) = length (filter filled r) - (if filled (r ! x) then 1 else 0)"
proof -
  assume x: "x < length r"
  have r: "r = take x r @ r ! x # drop (Suc x) r" using x by (rule id_take_nth_drop)
  have u: "r[x := None] = take x r @ None # drop (Suc x) r" using x by (rule upd_conv_take_nth_drop)
  have "length (filter filled r) = length (filter filled (take x r)) + (if filled (r ! x) then 1 else 0)
          + length (filter filled (drop (Suc x) r))"
    by (subst r) simp
  moreover have "length (filter filled (r[x := None])) = length (filter filled (take x r))
          + length (filter filled (drop (Suc x) r))"
    by (subst u) simp
  ultimately show ?thesis by simp
qed

lemma count_nonempty_set_cell_None:
  assumes "in_grid g (y, x)"
  shows "count_nonempty (set_cell g y x None)
         = count_nonempty g - (if filled (cell g y x) then 1 else 0)"
proof -
  let ?f = "\<lambda>r. length (filter filled r)"
  have y: "nat y < length g" and x: "nat x < length (g ! nat y)" using assms by (simp_all add: in_grid_def)
  have "count_nonempty (set_cell g y x None) = sum_list ((map ?f g)[nat y := ?f ((g ! nat y)[nat x := None])])"
    by (simp add: count_nonempty_rows set_cell_def map_update)
  also have "\<dots> = sum_list (map ?f g) + ?f ((g ! nat y)[nat x := None]) - ?f (g ! nat y)"
    using y by (simp add: sum_list_update)
  also have "\<dots> = sum_list (map ?f g) - (if filled (g ! nat y ! nat x) then 1 else 0)"
  proof -
    have "map ?f g ! nat y \<le> sum_list (map ?f g)"
      by (rule elem_le_sum_list) (use y in simp)
    then have "?f (g ! nat y) \<le> sum_list (map ?f g)"
      using y by simp
    moreover have "(if filled (g ! nat y ! nat x) then 1 else 0) \<le> ?f (g ! nat y)"
      using x by (auto simp: filter_empty_conv Suc_le_eq length_greater_0_conv intro!: bexI [of _ "g ! nat y ! nat x"])
    ultimately show ?thesis
      using length_filter_update_None [OF x] by simp
  qed
  finally show ?thesis by (simp add: count_nonempty_rows cell_def)
qed

lemma count_nonempty_removeMatchedPuyos_le:
  "\<forall>p \<in> set ms. in_grid g p \<Longrightarrow> count_nonempty (removeMatchedPuyos g ms) \<le> count_nonempty g"
proof (induction ms arbitrary: g)
  case Nil
  show ?case by (simp add: removeMatchedPuyos_Nil)
next
  case (Cons m ms)
  obtain y x where m: "m = (y, x)" by (cases m)
  have "count_nonempty (removeMatchedPuyos (set_cell g y x None) ms) \<le> count_nonempty (set_cell g y x None)"
    by (rule Cons.IH) (use Cons.prems in simp)
  also have "\<dots> \<le> count_nonempty g"
  proof -
    have "in_grid g (y, x)" using Cons.prems m by simp
    from count_nonempty_set_cell_None [OF this] show ?thesis by simp
  qed
  finally show ?case unfolding m removeMatchedPuyos_Cons .
qed

lemma count_nonempty_removeMatchedPuyos_less:
  assumes "\<forall>p \<in> set ms. in_grid g p \<and> cell g (fst p) (snd p) \<noteq> None" "ms \<noteq> []"
  shows "count_nonempty (removeMatchedPuyos g ms) < count_nonempty g"
proof -
  obtain y x ms' where ms: "ms = (y, x) # ms'" using assms(2) by (cases ms) auto
  have in_g: "in_grid g (y, x)" and f: "filled (cell g y x)" using assms(1) ms by (auto simp: filled_def)
  have pos: "0 < count_nonempty g"
  proof -
    have "nat y < length g" "nat x < length (g ! nat y)" using in_g by (simp_all add: in_grid_def)
    then have "g ! nat y ! nat x \<in> set (concat g)" by (auto simp: set_concat intro!: bexI [of _ "g ! nat y"])
    then show ?thesis using f by (auto simp: count_nonempty_def cell_def filter_empty_conv)
  qed
  have "count_nonempty (removeMatchedPuyos (set_cell g y x None) ms') \<le> count_nonempty (set_cell g y x None)"
    by (rule count_nonempty_removeMatchedPuyos_le) (use assms(1) ms in simp)
  also have "\<dots> < count_nonempty g"
    using in_g f pos by (simp add: count_nonempty_set_cell_None)
  finally show ?thesis by (simp add: ms removeMatchedPuyos_Cons)
qed

lemma rect_shape: "rect h w g \<longleftrightarrow> map length g = replicate h w"
proof
  assume r: "rect h w g"
  then have "map length g = map (\<lambda>_. w) g" by (intro map_cong) (simp_all add: rect_def)
  also have "\<dots> = replicate h w" using r by (simp add: map_replicate_const rect_def)
  finally show "map length g = replicate h w" .
next
  assume m: "map length g = replicate h w"
  then have "length (map length g) = length (replicate h w)" by simp
  then have len: "length g = h" by simp
  have "\<And>r. r \<in> set g \<Longrightarrow> length r = w"
  proof -
    fix r assume "r \<in> set g"
    then have "length r \<in> set (map length g)" by simp
    then have "length r \<in> set (replicate h w)" using m by simp
    then show "length r = w" by simp
  qed
  then show "rect h w g" using len by (simp add: rect_def)
qed

lemma wf_grid_shape: "wf_grid g \<longleftrightarrow> map length g = replicate (nat GRID_ROWS) (nat GRID_COLS)"
  by (simp add: wf_grid_def rect_shape)

lemma wf_grid_removeMatchedPuyos: "wf_grid g \<Longrightarrow> wf_grid (removeMatchedPuyos g ms)"
  by (simp add: wf_grid_shape removeMatchedPuyos_shape)

lemma wf_grid_applyGravity: "wf_grid g \<Longrightarrow> wf_grid (applyGravity g)"
  unfolding wf_grid_def by (rule applyGravity_columns(1) [OF _ GRID_ROWS_pos])

lemma chainPass_decreases:
  assumes "wf_grid g" "findMatches g \<noteq> []"
  shows "wf_grid (fst (chainPass g n s)) \<and> count_nonempty (fst (chainPass g n s)) < count_nonempty g"
proof -
  let ?g1 = "removeMatchedPuyos g (findMatches g)"
  have fst: "fst (chainPass g n s) = applyGravity ?g1" by (simp add: chainPass_def Let_def)
  have wf1: "wf_grid ?g1" using assms(1) by (rule wf_grid_removeMatchedPuyos)
  have "count_nonempty (applyGravity ?g1) = count_nonempty ?g1"
    by (rule count_nonempty_applyGravity [OF wf_grid_rect [OF wf1] GRID_ROWS_pos])
  also have "\<dots> < count_nonempty g"
    by (rule count_nonempty_removeMatchedPuyos_less [OF _ assms(2)])
       (use findMatches_members board_cells_in_grid [OF assms(1)] in blast)
  finally show ?thesis using wf_grid_applyGravity [OF wf1] fst by simp
qed

text \<open>The chain resolution returns on every board.\<close>

lemma animateChain_returns: "wf_grid g \<Longrightarrow> \<exists>s'. animateChain g n s = Some s'"
proof (induction "count_nonempty g" arbitrary: g n s rule: less_induct)
  case less
  show ?case
  proof (cases "findMatches g = []")
    case True
    then show ?thesis by (subst animateChain.simps) simp
  next
    case False
    obtain g' s1 where cp: "chainPass g n (s\<lparr>isChaining := True\<rparr>) = (g', s1)"
      by (cases "chainPass g n (s\<lparr>isChaining := True\<rparr>)")
    from chainPass_decreases [OF less.prems False, of n "s\<lparr>isChaining := True\<rparr>"] cp
    have "wf_grid g'" "count_nonempty g' < count_nonempty g" by simp_all
    from less.hyps [OF this(2) this(1)] obtain s' where "animateChain g' (n + 1) s1 = Some s'"
      by blast
    then show ?thesis using False cp by (subst animateChain.simps) (simp add: Let_def)
  qed
qed

text \<open>The chain resolution touches the board, the score and the chain displays only.\<close>

lemma chainPass_frame:
  "chainPass g n s = (g', s') \<Longrightarrow>
   gameState s' = gameState s \<and> isPaused s' = isPaused s \<and> currentPuyo s' = currentPuyo s \<and>
   nextPuyos s' = nextPuyos s \<and> heldPuyo s' = heldPuyo s \<and> canHold s' = canHold s \<and>
   isChaining s' = isChaining s \<and> grid s' = g'"
  by (auto simp: chainPass_def Let_def)

lemma animateChain_frame:
  "animateChain g n s = Some s' \<Longrightarrow>
   gameState s' = gameState s \<and> isPaused s' = isPaused s \<and> currentPuyo s' = currentPuyo s \<and>
   nextPuyos s' = nextPuyos s \<and> heldPuyo s' = heldPuyo s \<and> canHold s' = canHold s \<and>
   chainCounter s' = 0 \<and> isChaining s' = False"
proof (induction rule: animateChain.raw_induct [rotated 1, consumes 1])
  case (1 ac g n s s')
  show ?case
  proof (cases "findMatches g = []")
    case True
    with 1(2) show ?thesis by auto
  next
    case False
    obtain g' s1 where cp: "chainPass g n (s\<lparr>isChaining := True\<rparr>) = (g', s1)"
      by (cases "chainPass g n (s\<lparr>isChaining := True\<rparr>)")
    with 1(2) False have "ac g' (n + 1) s1 = Some s'" by (simp add: Let_def)
    from 1(1) [OF this] chainPass_frame [OF cp] show ?thesis by simp
  qed
qed

section \<open>The positions of the matches\<close>

lemma adjacent_iff:
  "adjacent p q \<longleftrightarrow>
     (fst q = fst p \<and> (snd q = snd p + 1 \<or> snd q = snd p - 1)) \<or>
     (snd q = snd p \<and> (fst q = fst p + 1 \<or> fst q = fst p - 1))"
  by (cases p; cases q) (auto simp: adjacent_def directions_def)

lemma adjacent_sym: "adjacent p q \<Longrightarrow> adjacent q p"
  by (auto simp: adjacent_iff)

lemma adjacent_parity: "adjacent p q \<Longrightarrow> even (fst p + snd p) \<noteq> even (fst q + snd q)"
  by (auto simp: adjacent_iff)

lemma adjacent_neq: "adjacent p q \<Longrightarrow> p \<noteq> q"
  by (auto simp: adjacent_iff)

lemma no_triangle: "adjacent a b \<Longrightarrow> adjacent b c \<Longrightarrow> adjacent c a \<Longrightarrow> False"
  using adjacent_parity [of a b] adjacent_parity [of b c] adjacent_parity [of c a] by auto

lemma linked_sym: "(p, q) \<in> linked g \<Longrightarrow> (q, p) \<in> linked g"
  by (auto simp: linked_def adjacent_sym)

lemma sym_linked: "sym (linked g)"
  by (rule symI) (rule linked_sym)

lemma component_refl: "p \<in> component g p"
  by (simp add: component_def)

lemma component_step: "q \<in> component g p \<Longrightarrow> (q, r) \<in> linked g \<Longrightarrow> r \<in> component g p"
  by (auto simp: component_def intro: rtrancl_into_rtrancl)

lemma component_sym: "q \<in> component g p \<Longrightarrow> p \<in> component g q"
proof -
  assume "q \<in> component g p"
  then have "(p, q) \<in> rtrancl (linked g)" by (simp add: component_def)
  then have "(q, p) \<in> rtrancl (linked g)"
    using sym_linked [of g] by (simp add: sym_rtrancl symD)
  then show ?thesis by (simp add: component_def)
qed

lemma component_eq: "q \<in> component g p \<Longrightarrow> component g q = component g p"
proof -
  assume q: "q \<in> component g p"
  then have pq: "(p, q) \<in> rtrancl (linked g)" by (simp add: component_def)
  from component_sym [OF q] have qp: "(q, p) \<in> rtrancl (linked g)" by (simp add: component_def)
  show ?thesis
    unfolding component_def using pq qp by (auto intro: rtrancl_trans)
qed

lemma component_props:
  "q \<in> component g p \<Longrightarrow>
   cell g (fst q) (snd q) = cell g (fst p) (snd p) \<and> (p \<in> board_cells \<longrightarrow> q \<in> board_cells)"
proof -
  assume "q \<in> component g p"
  then have "(p, q) \<in> rtrancl (linked g)" by (simp add: component_def)
  then show ?thesis
    by (induction rule: rtrancl_induct) (auto simp: linked_def)
qed

lemma component_subset: "p \<in> board_cells \<Longrightarrow> component g p \<subseteq> board_cells"
  using component_props [of _ g p] by blast

lemma finite_component: "p \<in> board_cells \<Longrightarrow> finite (component g p)"
  by (rule finite_subset [OF component_subset]) simp_all

text \<open>What the loop over the directions pushes.\<close>

lemma visit_neighbours_eq:
  "visit_neighbours g color visited cy cx ds (grp, queue) =
     (grp @ filter (\<lambda>p. p \<in> board_cells \<and> cell g (fst p) (snd p) = color \<and> p \<notin> visited)
               (map (\<lambda>d. (cy + fst d, cx + snd d)) ds),
      queue @ filter (\<lambda>p. p \<in> board_cells \<and> cell g (fst p) (snd p) = color \<and> p \<notin> visited)
               (map (\<lambda>d. (cy + fst d, cx + snd d)) ds))"
proof (induction ds arbitrary: grp queue)
  case Nil
  show ?case by simp
next
  case (Cons d ds)
  obtain dy dx where d: "d = (dy, dx)" by (cases d)
  have b: "(cy + dy, cx + dx) \<in> board_cells \<longleftrightarrow>
           cy + dy \<ge> 0 \<and> cy + dy < GRID_ROWS \<and> cx + dx \<ge> 0 \<and> cx + dx < GRID_COLS"
    by (auto simp: board_cells_def)
  show ?case
    unfolding d by (simp add: Cons.IH Let_def b del: visit_neighbours.simps(2)) (auto simp: Cons.IH Let_def b)
qed

lemma set_pushed:
  "set (pushed g color visited c) =
     {q \<in> board_cells. adjacent c q \<and> cell g (fst q) (snd q) = color \<and> q \<notin> visited}"
  by (auto simp: pushed_def adjacent_def)

lemma distinct_pushed: "distinct (pushed g color visited c)"
proof -
  have "distinct (map (\<lambda>d. (fst c + fst d, snd c + snd d)) directions)"
    by (simp add: directions_def)
  then show ?thesis unfolding pushed_def by (rule distinct_filter)
qed

lemma flood_Nil: "flood g color grp [] visited = grp"
  by (simp add: flood.simps)

lemma flood_Cons:
  "flood g color grp (c # rest) visited =
     flood g color (grp @ pushed g color (insert c visited) c)
                   (rest @ pushed g color (insert c visited) c) (insert c visited)"
proof -
  obtain cy cx where c: "c = (cy, cx)" by (cases c)
  show ?thesis
    unfolding c by (subst flood.simps) (simp add: visit_neighbours_eq pushed_def)
qed

lemma flood_induct_pushed:
  assumes "\<And>grp visited. P grp [] visited"
    and "\<And>grp c rest visited.
           P (grp @ pushed g color (insert c visited) c)
             (rest @ pushed g color (insert c visited) c) (insert c visited)
           \<Longrightarrow> P grp (c # rest) visited"
  shows "P grp queue visited"
proof -
  have "g' = g \<and> color' = color \<longrightarrow> P grp queue visited" for g' color'
  proof (induction g' color' grp queue visited rule: flood.induct)
    case (1 g' color' grp queue visited)
    show ?case
    proof (intro impI, cases queue)
      case Nil
      then show "P grp queue visited" using assms(1) by simp
    next
      case (Cons c rest)
      assume eq: "g' = g \<and> color' = color"
      obtain cy cx where c: "c = (cy, cx)" by (cases c)
      let ?new = "pushed g color (insert c visited) c"
      have vn: "visit_neighbours g' color' (insert (cy, cx) visited) cy cx directions (grp, rest)
                = (grp @ ?new, rest @ ?new)"
        using eq by (simp add: visit_neighbours_eq pushed_def c)
      have "g' = g \<and> color' = color \<longrightarrow> P (grp @ ?new) (rest @ ?new) (insert (cy, cx) visited)"
        by (rule "1.IH" [OF Cons c [symmetric] refl refl vn [symmetric]])
      then have "P (grp @ ?new) (rest @ ?new) (insert c visited)" using eq c by simp
      then show "P grp queue visited" unfolding Cons by (rule assms(2))
    qed
  qed
  then show ?thesis by blast
qed

lemma flood_inv_start: "flood_inv g s0 [s0] [s0] {}"
  by (simp add: flood_inv_def component_refl)

lemma flood_inv_step:
  assumes s0: "s0 \<in> board_cells"
    and inv: "flood_inv g s0 grp (c # rest) visited"
  defines "new \<equiv> pushed g (cell g (fst s0) (snd s0)) (insert c visited) c"
  shows "flood_inv g s0 (grp @ new) (rest @ new) (insert c visited)"
proof -
  from inv obtain popped where grp: "grp = popped @ c # rest" and vis: "visited = set popped"
    by (auto simp: flood_inv_def)
  have ne: "grp \<noteq> []" and hd: "hd grp = s0" and sub: "set grp \<subseteq> component g s0"
    and closed: "\<forall>v \<in> visited. \<forall>q. (v, q) \<in> linked g \<longrightarrow> q \<in> set grp"
    and parent: "\<forall>n \<in> set grp. n = s0 \<or> (\<exists>v \<in> visited. adjacent v n)"
    using inv by (auto simp: flood_inv_def)
  have c_in: "c \<in> component g s0" using sub grp by auto
  then have c_col: "cell g (fst c) (snd c) = cell g (fst s0) (snd s0)" and c_board: "c \<in> board_cells"
    using component_props [of c g s0] s0 by auto
  have new_set: "set new = {q \<in> board_cells. adjacent c q \<and>
                    cell g (fst q) (snd q) = cell g (fst s0) (snd s0) \<and> q \<notin> insert c visited}"
    unfolding new_def by (rule set_pushed)
  have new_linked: "(c, q) \<in> linked g" if "q \<in> set new" for q
    using that new_set c_col c_board by (auto simp: linked_def)
  have "\<exists>popped'. grp @ new = popped' @ rest @ new \<and> insert c visited = set popped'"
    by (rule exI [of _ "popped @ [c]"]) (simp add: grp vis)
  moreover have "grp @ new \<noteq> []" "hd (grp @ new) = s0" using ne hd by simp_all
  moreover have "set (grp @ new) \<subseteq> component g s0"
    using sub new_linked c_in by (auto intro: component_step)
  moreover have "\<forall>v \<in> insert c visited. \<forall>q. (v, q) \<in> linked g \<longrightarrow> q \<in> set (grp @ new)"
  proof (intro ballI allI impI)
    fix v q assume v: "v \<in> insert c visited" and l: "(v, q) \<in> linked g"
    show "q \<in> set (grp @ new)"
    proof (cases "v = c")
      case False
      then have "v \<in> visited" using v by simp
      with closed l have "q \<in> set grp" by blast
      then show ?thesis by simp
    next
      case True
      from l True have q: "q \<in> board_cells" "adjacent c q"
        "cell g (fst q) (snd q) = cell g (fst s0) (snd s0)"
        using c_col by (auto simp: linked_def)
      show ?thesis
      proof (cases "q \<in> insert c visited")
        case True
        then show ?thesis using grp vis by auto
      next
        case False
        then show ?thesis using q new_set by auto
      qed
    qed
  qed
  moreover have "\<forall>n \<in> set (grp @ new). n = s0 \<or> (\<exists>v \<in> insert c visited. adjacent v n)"
    using parent new_set by auto
  ultimately show ?thesis unfolding flood_inv_def by blast
qed

lemma flood_inv_final:
  assumes "flood_inv g s0 grp [] visited"
  shows "set grp = component g s0"
proof
  show "set grp \<subseteq> component g s0" using assms by (simp add: flood_inv_def)
  from assms have vis: "visited = set grp" and ne: "grp \<noteq> []" and hd: "hd grp = s0"
    and closed: "\<forall>v \<in> visited. \<forall>q. (v, q) \<in> linked g \<longrightarrow> q \<in> set grp"
    by (auto simp: flood_inv_def)
  have s0: "s0 \<in> set grp" using ne hd by (metis hd_in_set)
  show "component g s0 \<subseteq> set grp"
  proof
    fix q assume "q \<in> component g s0"
    then have "(s0, q) \<in> rtrancl (linked g)" by (simp add: component_def)
    then show "q \<in> set grp"
      by (induction rule: rtrancl_induct) (use s0 closed vis in auto)
  qed
qed

lemma flood_set_inv:
  "s0 \<in> board_cells \<Longrightarrow> flood_inv g s0 grp queue visited \<Longrightarrow>
   set (flood g (cell g (fst s0) (snd s0)) grp queue visited) = component g s0"
proof (induction grp queue visited rule: flood_induct_pushed [where g = g and color = "cell g (fst s0) (snd s0)"])
  case (1 grp visited)
  then show ?case by (simp add: flood_Nil flood_inv_final)
next
  case (2 grp c rest visited)
  from flood_inv_step [OF "2.prems"]
  show ?case unfolding flood_Cons by (rule "2.IH" [OF "2.prems"(1)])
qed

lemma flood_set:
  "(y, x) \<in> board_cells \<Longrightarrow>
   set (flood g (cell g y x) [(y, x)] [(y, x)] {}) = component g (y, x)"
  using flood_set_inv [OF _ flood_inv_start, of "(y, x)" g] by simp

text \<open>
  In a group of at most three cells no cell is pushed twice: a cell pushed while it waits in
  the queue has a visited neighbour of its own, and so has the cell that pushes it; the two
  visited cells differ, since three cells of the board are never pairwise adjacent; so the
  group has four cells.
\<close>

lemma flood_distinct_step:
  assumes s0: "s0 \<in> board_cells"
    and inv: "flood_inv g s0 grp (c # rest) visited"
    and dist: "distinct grp"
    and small: "card (component g s0) \<le> 3"
  shows "distinct (grp @ pushed g (cell g (fst s0) (snd s0)) (insert c visited) c)"
proof -
  let ?new = "pushed g (cell g (fst s0) (snd s0)) (insert c visited) c"
  from inv obtain popped where grp: "grp = popped @ c # rest" and vis: "visited = set popped"
    by (auto simp: flood_inv_def)
  have hd: "hd grp = s0" and sub: "set grp \<subseteq> component g s0"
    and parent: "\<forall>n \<in> set grp. n = s0 \<or> (\<exists>v \<in> visited. adjacent v n)"
    using inv by (auto simp: flood_inv_def)
  have c_fresh: "c \<notin> visited" "c \<notin> set rest" using dist grp vis by auto
  have "set grp \<inter> set ?new = {}"
  proof (rule ccontr)
    assume "set grp \<inter> set ?new \<noteq> {}"
    then obtain n where n_grp: "n \<in> set grp" and n_new: "n \<in> set ?new" by blast
    from n_new have n: "adjacent c n" "n \<noteq> c" "n \<notin> visited"
      by (auto simp: set_pushed)
    have s0_case: "popped \<noteq> [] \<Longrightarrow> s0 \<in> visited"
      using hd grp vis by (cases popped) auto
    have "n \<noteq> s0"
    proof
      assume "n = s0"
      then show False using hd grp n s0_case by (cases popped) auto
    qed
    with parent n_grp obtain c0 where c0: "c0 \<in> visited" "adjacent c0 n" by blast
    then have "popped \<noteq> []" using vis by auto
    then have "s0 \<in> visited" by (rule s0_case)
    then have "c \<noteq> s0" using c_fresh by auto
    moreover have "c \<in> set grp" using grp by simp
    ultimately obtain c1 where c1: "c1 \<in> visited" "adjacent c1 c" using parent by blast
    have "c0 \<noteq> c1"
    proof
      assume "c0 = c1"
      then have "adjacent c c0" using c1 adjacent_sym by blast
      moreover have "adjacent n c" using n adjacent_sym by blast
      ultimately show False using c0(2) no_triangle [of c0 n c] by blast
    qed
    then have four: "distinct [c0, c1, n, c]" using c0 c1 n c_fresh by auto
    have "set [c0, c1, n, c] \<subseteq> component g s0"
      using c0 c1 n_grp sub grp vis by auto
    then have "card (set [c0, c1, n, c]) \<le> card (component g s0)"
      by (intro card_mono finite_component s0)
    then have "4 \<le> card (component g s0)"
      using distinct_card [OF four] by simp
    then show False using small by simp
  qed
  then show ?thesis using dist distinct_pushed by simp
qed

lemma flood_distinct_inv:
  "s0 \<in> board_cells \<Longrightarrow> card (component g s0) \<le> 3 \<Longrightarrow> flood_inv g s0 grp queue visited \<Longrightarrow>
   distinct grp \<Longrightarrow> distinct (flood g (cell g (fst s0) (snd s0)) grp queue visited)"
proof (induction grp queue visited rule: flood_induct_pushed [where g = g and color = "cell g (fst s0) (snd s0)"])
  case (1 grp visited)
  then show ?case by (simp add: flood_Nil)
next
  case (2 grp c rest visited)
  have "distinct (grp @ pushed g (cell g (fst s0) (snd s0)) (insert c visited) c)"
    by (rule flood_distinct_step [OF "2.prems"(1,3,4,2)])
  with "2.prems" show ?case
    unfolding flood_Cons by (intro "2.IH" flood_inv_step)
qed

lemma flood_length:
  assumes "(y, x) \<in> board_cells"
  shows "4 \<le> length (flood g (cell g y x) [(y, x)] [(y, x)] {}) \<longleftrightarrow> 4 \<le> card (component g (y, x))"
proof
  assume "4 \<le> card (component g (y, x))"
  then have "4 \<le> card (set (flood g (cell g y x) [(y, x)] [(y, x)] {}))"
    by (simp add: flood_set [OF assms])
  then show "4 \<le> length (flood g (cell g y x) [(y, x)] [(y, x)] {})"
    using card_length [of "flood g (cell g y x) [(y, x)] [(y, x)] {}"] by simp
next
  assume len: "4 \<le> length (flood g (cell g y x) [(y, x)] [(y, x)] {})"
  show "4 \<le> card (component g (y, x))"
  proof (rule ccontr)
    assume "\<not> 4 \<le> card (component g (y, x))"
    then have small: "card (component g (y, x)) \<le> 3" by simp
    have "distinct (flood g (cell g y x) [(y, x)] [(y, x)] {})"
      using flood_distinct_inv [OF assms small flood_inv_start] by simp
    then have "length (flood g (cell g y x) [(y, x)] [(y, x)] {}) = card (component g (y, x))"
      using distinct_card [of "flood g (cell g y x) [(y, x)] [(y, x)] {}"] flood_set [OF assms, of g]
      by simp
    then show False using len small by simp
  qed
qed

lemma scan_cell_alt:
  "scan_cell g acc c =
     (if matching_start g c then acc @ flood g (cell g (fst c) (snd c)) [c] [c] {} else acc)"
  by (cases c) (simp add: scan_cell_def matching_start_def Let_def)

lemma set_foldl_scan_cell:
  "set (foldl (scan_cell g) acc cs) =
     set acc \<union> (\<Union>c \<in> {c \<in> set cs. matching_start g c}.
                  set (flood g (cell g (fst c) (snd c)) [c] [c] {}))"
  by (induction cs arbitrary: acc) (auto simp: scan_cell_alt)

lemma findMatches_set_component:
  "set (findMatches g) =
     {p \<in> board_cells. cell g (fst p) (snd p) \<noteq> None \<and> 4 \<le> card (component g p)}"
proof -
  have start: "matching_start g c \<longleftrightarrow> cell g (fst c) (snd c) \<noteq> None \<and> 4 \<le> card (component g c)"
    if "c \<in> board_cells" for c
    using flood_length [of "fst c" "snd c" g] that by (simp add: matching_start_def)
  have fl: "set (flood g (cell g (fst c) (snd c)) [c] [c] {}) = component g c"
    if "c \<in> board_cells" for c
    using flood_set [of "fst c" "snd c" g] that by simp
  have "set (findMatches g) =
        (\<Union>c \<in> {c \<in> board_cells. matching_start g c}. set (flood g (cell g (fst c) (snd c)) [c] [c] {}))"
    unfolding findMatches_def set_foldl_scan_cell all_cells by simp
  also have "\<dots> = (\<Union>c \<in> {c \<in> board_cells. cell g (fst c) (snd c) \<noteq> None \<and> 4 \<le> card (component g c)}.
                      component g c)"
    using start fl by auto
  also have "\<dots> = {p \<in> board_cells. cell g (fst p) (snd p) \<noteq> None \<and> 4 \<le> card (component g p)}"
  proof (intro set_eqI iffI)
    fix p
    assume "p \<in> (\<Union>c \<in> {c \<in> board_cells. cell g (fst c) (snd c) \<noteq> None \<and> 4 \<le> card (component g c)}.
                      component g c)"
    then obtain c where c: "c \<in> board_cells" "cell g (fst c) (snd c) \<noteq> None"
      "4 \<le> card (component g c)" "p \<in> component g c"
      by blast
    from component_props [OF c(4)] component_eq [OF c(4)] c
    show "p \<in> {p \<in> board_cells. cell g (fst p) (snd p) \<noteq> None \<and> 4 \<le> card (component g p)}"
      by simp
  next
    fix p
    assume "p \<in> {p \<in> board_cells. cell g (fst p) (snd p) \<noteq> None \<and> 4 \<le> card (component g p)}"
    then show "p \<in> (\<Union>c \<in> {c \<in> board_cells. cell g (fst c) (snd c) \<noteq> None \<and> 4 \<le> card (component g c)}.
                      component g c)"
      using component_refl [of p g] by blast
  qed
  finally show ?thesis .
qed

text \<open>A straight run of cells of one colour lies in one group.\<close>

lemma run_in_component:
  assumes d: "d \<in> set directions"
    and run: "\<forall>k<n. (y + int k * fst d, x + int k * snd d) \<in> board_cells \<and>
                     cell g (y + int k * fst d) (x + int k * snd d) = Some c"
  shows "k < n \<Longrightarrow> (y + int k * fst d, x + int k * snd d) \<in> component g (y, x)"
proof (induction k)
  case 0
  show ?case by (simp add: component_refl)
next
  case (Suc k)
  let ?p = "(y + int k * fst d, x + int k * snd d)"
  let ?q = "(y + int (Suc k) * fst d, x + int (Suc k) * snd d)"
  have p: "?p \<in> component g (y, x)" using Suc by simp
  have "?q = (fst ?p + fst d, snd ?p + snd d)" by (simp add: algebra_simps)
  then have "adjacent ?p ?q" using d unfolding adjacent_def by blast
  moreover have "?p \<in> board_cells" "?q \<in> board_cells"
    "cell g (fst ?p) (snd ?p) = cell g (fst ?q) (snd ?q)"
    using run Suc.prems by (simp_all del: of_nat_Suc)
  ultimately have "(?p, ?q) \<in> linked g" unfolding linked_def by blast
  with p show ?case by (rule component_step)
qed

lemma run_distinct:
  assumes "d \<in> set directions"
  shows "distinct (map (\<lambda>k. (y + int k * fst d, x + int k * snd d)) [0, 1, 2, 3])"
  using assms by (auto simp: directions_def)

lemma run_matched:
  assumes d: "d \<in> set directions"
    and run: "\<forall>k<n. (y + int k * fst d, x + int k * snd d) \<in> board_cells \<and>
                     cell g (y + int k * fst d) (x + int k * snd d) = Some c"
    and n: "4 \<le> n"
  shows "\<forall>k<n. (y + int k * fst d, x + int k * snd d) \<in> set (findMatches g)"
proof (intro allI impI)
  fix k assume k: "k < n"
  let ?p = "\<lambda>k. (y + int k * fst d, x + int k * snd d)"
  have start: "(y, x) \<in> board_cells" using run n by (auto dest: spec [of _ 0])
  have "set (map ?p [0, 1, 2, 3]) \<subseteq> component g (y, x)"
    using run_in_component [OF d run, of 0] run_in_component [OF d run, of 1]
      run_in_component [OF d run, of 2] run_in_component [OF d run, of 3] n
    by simp
  then have "card (set (map ?p [0, 1, 2, 3])) \<le> card (component g (y, x))"
    by (intro card_mono finite_component start)
  then have four: "4 \<le> card (component g (y, x))"
    using distinct_card [OF run_distinct [OF d, of y x]] by simp
  have pk: "?p k \<in> component g (y, x)" by (rule run_in_component [OF d run k])
  have "4 \<le> card (component g (?p k))" using four component_eq [OF pk] by simp
  moreover have "?p k \<in> board_cells" "cell g (fst (?p k)) (snd (?p k)) \<noteq> None"
    using run k by simp_all
  ultimately show "?p k \<in> set (findMatches g)"
    unfolding findMatches_set_component by blast
qed

lemma isolated_component:
  assumes "\<forall>q. adjacent p q \<and> q \<in> board_cells \<longrightarrow>
               cell g (fst q) (snd q) \<noteq> cell g (fst p) (snd p)"
  shows "component g p = {p}"
proof -
  have "q = p" if "(p, q) \<in> rtrancl (linked g)" for q
    using that
  proof (induction rule: rtrancl_induct)
    case base
    show ?case by simp
  next
    case (step q r)
    then have "(p, r) \<in> linked g" by simp
    then have "adjacent p r \<and> r \<in> board_cells"
      and "cell g (fst r) (snd r) = cell g (fst p) (snd p)"
      by (simp_all add: linked_def)
    with assms show ?case by blast
  qed
  then show ?thesis using component_refl [of p g] by (auto simp: component_def)
qed

text \<open>
  Claim C1, as the code has it.  On every board the positions in the result of
  \<open>findMatches\<close> are exactly the non-empty cells of the board whose connected group
  (same colour, joined in the four directions) has four cells or more; the result is a
  list and may name a position more than once.  So a straight run of four or more cells of
  one colour, in any of the four directions, is in the result with all its cells, no cell
  of a group of exactly three is, and a cell none of whose four neighbours has its colour
  is a group by itself, whatever its diagonal neighbours hold.
\<close>

theorem findMatches_set:
  assumes "wf_grid g"
  shows "set (findMatches g) =
           {p \<in> board_cells. cell g (fst p) (snd p) \<noteq> None \<and> 4 \<le> card (component g p)} \<and>
         (d \<in> set directions \<and> 4 \<le> n \<and>
          (\<forall>k<n. (y + int k * fst d, x + int k * snd d) \<in> board_cells \<and>
                  cell g (y + int k * fst d) (x + int k * snd d) = Some c) \<longrightarrow>
            (\<forall>k<n. (y + int k * fst d, x + int k * snd d) \<in> set (findMatches g))) \<and>
         (card (component g p) = 3 \<longrightarrow> p \<notin> set (findMatches g)) \<and>
         ((\<forall>q. adjacent p q \<and> q \<in> board_cells \<longrightarrow>
               cell g (fst q) (snd q) \<noteq> cell g (fst p) (snd p)) \<longrightarrow>
            component g p = {p} \<and> p \<notin> set (findMatches g))"
proof -
  note set_eq = findMatches_set_component [of g]
  have "d \<in> set directions \<and> 4 \<le> n \<and>
          (\<forall>k<n. (y + int k * fst d, x + int k * snd d) \<in> board_cells \<and>
                  cell g (y + int k * fst d) (x + int k * snd d) = Some c) \<longrightarrow>
            (\<forall>k<n. (y + int k * fst d, x + int k * snd d) \<in> set (findMatches g))"
    using run_matched [of d n y x g c] by blast
  moreover have "card (component g p) = 3 \<longrightarrow> p \<notin> set (findMatches g)"
    unfolding set_eq by simp
  moreover have "(\<forall>q. adjacent p q \<and> q \<in> board_cells \<longrightarrow>
               cell g (fst q) (snd q) \<noteq> cell g (fst p) (snd p)) \<longrightarrow>
            component g p = {p} \<and> p \<notin> set (findMatches g)"
  proof
    assume "\<forall>q. adjacent p q \<and> q \<in> board_cells \<longrightarrow>
               cell g (fst q) (snd q) \<noteq> cell g (fst p) (snd p)"
    then have "component g p = {p}" by (rule isolated_component)
    then show "component g p = {p} \<and> p \<notin> set (findMatches g)"
      unfolding set_eq by simp
  qed
  ultimately show ?thesis using set_eq by blast
qed

text \<open>
  Claim C1 on the board with four red cells in a row, and on the board with a red run of
  three and a red cell diagonal to its end.
\<close>

theorem findMatches_set_witness:
  "wf_grid board_line4 \<and>
   (11, 0) \<in> set (findMatches board_line4) \<and> (11, 3) \<in> set (findMatches board_line4) \<and>
   wf_grid board_diagonal \<and>
   card (component board_diagonal (11, 0)) = 3 \<and>
   (11, 0) \<notin> set (findMatches board_diagonal) \<and>
   component board_diagonal (10, 3) = {(10, 3)} \<and>
   (10, 3) \<notin> set (findMatches board_diagonal)"
proof -
  have wf: "wf_grid board_line4" "wf_grid board_diagonal" by code_simp+
  have d: "(0, 1) \<in> set directions" by (simp add: directions_def)
  have run: "\<forall>k<4. (11 + int k * fst (0 :: int, 1 :: int), 0 + int k * snd (0 :: int, 1 :: int)) \<in> board_cells \<and>
        cell board_line4 (11 + int k * fst (0 :: int, 1 :: int)) (0 + int k * snd (0 :: int, 1 :: int)) = Some Red"
  proof (intro allI impI)
    fix k :: nat assume "k < 4"
    then have "k = 0 \<or> k = 1 \<or> k = 2 \<or> k = 3" by auto
    moreover have "cell board_line4 11 0 = Some Red" "cell board_line4 11 1 = Some Red"
      "cell board_line4 11 2 = Some Red" "cell board_line4 11 3 = Some Red"
      by code_simp+
    ultimately show "(11 + int k * fst (0 :: int, 1 :: int), 0 + int k * snd (0 :: int, 1 :: int)) \<in> board_cells \<and>
        cell board_line4 (11 + int k * fst (0 :: int, 1 :: int)) (0 + int k * snd (0 :: int, 1 :: int)) = Some Red"
      by (elim disjE) (simp_all add: board_cells_def GRID_ROWS_def GRID_COLS_def)
  qed
  from findMatches_set [OF wf(1), of "(0, 1)" 4 11 0 Red] d run
  have m: "\<forall>k<4. (11 + int k * fst (0 :: int, 1 :: int), 0 + int k * snd (0 :: int, 1 :: int))
                 \<in> set (findMatches board_line4)"
    by blast
  have m0: "(11, 0) \<in> set (findMatches board_line4)" using m [rule_format, of 0] by simp
  have m3: "(11, 3) \<in> set (findMatches board_line4)" using m [rule_format, of 3] by simp
  have b: "(11, 0) \<in> board_cells" by (simp add: board_cells_def GRID_ROWS_def GRID_COLS_def)
  have fl: "flood board_diagonal (cell board_diagonal 11 0) [(11, 0)] [(11, 0)] {}
            = [(11, 0), (11, 1), (11, 2)]"
    by code_simp
  have comp: "component board_diagonal (11, 0) = {(11, 0), (11, 1), (11, 2)}"
    using flood_set [OF b, of board_diagonal] fl by simp
  then have three: "card (component board_diagonal (11, 0)) = 3" by simp
  have iso: "\<forall>q. adjacent (10, 3) q \<and> q \<in> board_cells \<longrightarrow>
               cell board_diagonal (fst q) (snd q) \<noteq> cell board_diagonal (fst (10 :: int, 3 :: int)) (snd (10 :: int, 3 :: int))"
  proof -
    have "cell board_diagonal 10 3 = Some Red" "cell board_diagonal 10 4 = None"
      "cell board_diagonal 10 2 = None" "cell board_diagonal 11 3 = Some Blue"
      "cell board_diagonal 9 3 = None"
      by code_simp+
    then show ?thesis by (auto simp: adjacent_iff)
  qed
  from findMatches_set [OF wf(2), of _ _ _ _ _ "(11, 0)"] three
  have n0: "(11, 0) \<notin> set (findMatches board_diagonal)" by blast
  from findMatches_set [OF wf(2), of _ _ _ _ _ "(10, 3)"] iso
  have n1: "component board_diagonal (10, 3) = {(10, 3)} \<and> (10, 3) \<notin> set (findMatches board_diagonal)"
    by blast
  from wf m0 m3 three n0 n1 show ?thesis by blast
qed

text \<open>
  Claim C1 as stated fails: it says that every matched position occurs exactly once in the
  result.  On the board whose bottom row starts with four red cells the result lists 16
  positions, the whole group once for each of its four cells, since every cell starts a
  search of its own.  Within one search a cell can be pushed twice as well, since it is
  marked visited only when it leaves the queue: from the top left cell of a 2 by 2 square,
  the bottom right cell is pushed by both of its neighbours.
\<close>

theorem findMatches_repeats_counterexample:
  "findMatches board_line4 =
     [(11, 0), (11, 1), (11, 2), (11, 3),
      (11, 1), (11, 2), (11, 0), (11, 3),
      (11, 2), (11, 3), (11, 1), (11, 0),
      (11, 3), (11, 2), (11, 1), (11, 0)] \<and>
   count_list (findMatches board_line4) (11, 0) = 4 \<and>
   flood board_square (Some Red) [(10, 0)] [(10, 0)] {} =
     [(10, 0), (10, 1), (11, 0), (11, 1), (11, 1)]"
  by code_simp

section \<open>The score of a pass\<close>

text \<open>One pass adds ten points times the length of the list of matches times the chain index plus one.\<close>

lemma chainPass_score:
  "score (snd (chainPass g n s)) = score s + int (length (findMatches g)) * 10 * (n + 1) \<and>
   chainCounter (snd (chainPass g n s)) = n + 1"
  by (simp add: chainPass_def Let_def)

text \<open>The number of cells a removal empties is the number of filled positions it names.\<close>

lemma count_nonempty_set_cell_None_add:
  assumes "in_grid g (y, x)"
  shows "count_nonempty (set_cell g y x None) + (if filled (cell g y x) then 1 else 0)
         = count_nonempty g"
proof (cases "filled (cell g y x)")
  case False
  then show ?thesis using count_nonempty_set_cell_None [OF assms] by simp
next
  case True
  have "nat y < length g" "nat x < length (g ! nat y)" using assms by (simp_all add: in_grid_def)
  then have "g ! nat y ! nat x \<in> set (concat g)"
    by (auto simp: set_concat intro!: bexI [of _ "g ! nat y"])
  then have "0 < count_nonempty g"
    using True by (auto simp: count_nonempty_def cell_def filter_empty_conv)
  then show ?thesis using True count_nonempty_set_cell_None [OF assms] by simp
qed

lemma count_nonempty_removeMatchedPuyos:
  "\<forall>p \<in> set ms. in_grid g p \<Longrightarrow>
   count_nonempty (removeMatchedPuyos g ms) + card {p \<in> set ms. filled (cell g (fst p) (snd p))}
     = count_nonempty g"
proof (induction ms arbitrary: g)
  case Nil
  show ?case by (simp add: removeMatchedPuyos_Nil)
next
  case (Cons m ms)
  obtain y x where m: "m = (y, x)" by (cases m)
  let ?g' = "set_cell g y x None"
  let ?A = "{p \<in> set ms. p \<noteq> m \<and> filled (cell g (fst p) (snd p))}"
  have mg: "in_grid g (y, x)" using Cons.prems m by simp
  have in': "\<forall>p \<in> set ms. in_grid ?g' p" using Cons.prems by simp
  have "{p \<in> set ms. filled (cell ?g' (fst p) (snd p))} = ?A"
  proof (intro set_eqI)
    fix p :: "int \<times> int"
    obtain y' x' where p: "p = (y', x')" by (cases p)
    show "p \<in> {p \<in> set ms. filled (cell ?g' (fst p) (snd p))} \<longleftrightarrow> p \<in> ?A"
    proof (cases "p \<in> set ms")
      case False
      then show ?thesis by simp
    next
      case True
      then have "in_grid g (y', x')" using Cons.prems p by simp
      from cell_set_cell [OF mg this, of None] show ?thesis
        using True by (auto simp: p m)
    qed
  qed
  then have ih: "count_nonempty (removeMatchedPuyos ?g' ms) + card ?A = count_nonempty ?g'"
    using Cons.IH [OF in'] by simp
  have split: "{p \<in> set (m # ms). filled (cell g (fst p) (snd p))}
               = (if filled (cell g y x) then {m} else {}) \<union> ?A"
    by (auto simp: m)
  have "card {p \<in> set (m # ms). filled (cell g (fst p) (snd p))}
        = (if filled (cell g y x) then 1 else 0) + card ?A"
    unfolding split by (subst card_Un_disjoint) auto
  then show ?case
    using ih count_nonempty_set_cell_None_add [OF mg]
    by (simp add: m removeMatchedPuyos_Cons)
qed

lemma removed_cells:
  assumes "wf_grid g"
  shows "count_nonempty (removeMatchedPuyos g (findMatches g)) + card (set (findMatches g))
         = count_nonempty g"
proof -
  have "{p \<in> set (findMatches g). filled (cell g (fst p) (snd p))} = set (findMatches g)"
    using findMatches_members [of _ g] by (auto simp: filled_def)
  then show ?thesis
    using count_nonempty_removeMatchedPuyos [OF findMatches_in_grid [OF assms]] by simp
qed

lemma animateChain_no_match:
  "findMatches g = [] \<Longrightarrow> animateChain g n s = Some (s\<lparr>chainCounter := 0, isChaining := False\<rparr>)"
  by (subst animateChain.simps) simp

lemma animateChain_match:
  "findMatches g \<noteq> [] \<Longrightarrow>
   animateChain g n s =
     animateChain (fst (chainPass g n (s\<lparr>isChaining := True\<rparr>))) (n + 1)
                  (snd (chainPass g n (s\<lparr>isChaining := True\<rparr>)))"
  by (subst animateChain.simps) (simp add: Let_def split: prod.splits)

text \<open>
  On the bottom row the red piece cannot fall: a Down move locks it.
\<close>

lemma red_lock_down:
  "movePuyo Down (Green, Green) red_lock = placePuyo (Green, Green) red_lock"
  by code_simp

text \<open>
  Claim C2 at a lock that completes a run of four.  The claim has a pass add the number of
  matched cells times 10 times the chain index plus one.  \<open>animateChain\<close> multiplies the
  length of the list \<open>findMatches\<close> returns, and that list names a matched cell once
  for every search that reaches it and again for every time one search pushes it.  Locking
  a red piece that lies on the bottom row beside two red cells leaves a run of four red
  cells; the pass at chain index 0 removes these 4 cells and the score rises by 160,
  where the claim has 40.  Four cells in a square add 200 and six cells in a block of
  2 by 3 add 520, where the claim has 40 and 60: the points depend on the shape of the
  group.  The chain count is set to the chain index plus one, as the claim has it.
\<close>

theorem chain_pass_score_divergence:
  "isValidMove (grid red_lock)
     \<lparr>color1 = Some Red, color2 = Some Red, x_coord = 2, y_coord = 11, rotation = 1\<rparr> \<and>
   lock_grid (grid red_lock)
     \<lparr>color1 = Some Red, color2 = Some Red, x_coord = 2, y_coord = 11, rotation = 1\<rparr>
     = board_line4 \<and>
   map_option grid (placePuyo (Green, Green) red_lock) = Some createEmptyGrid \<and>
   map_option score (placePuyo (Green, Green) red_lock) = Some (score red_lock + 160) \<and>
   card (set (findMatches board_line4)) = 4 \<and>
   count_nonempty board_line4
     - count_nonempty (removeMatchedPuyos board_line4 (findMatches board_line4)) = 4 \<and>
   score (snd (chainPass board_line4 0 game0)) = score game0 + 160 \<and>
   chainCounter (snd (chainPass board_line4 0 game0)) = 1 \<and>
   card (set (findMatches board_square)) = 4 \<and>
   score (snd (chainPass board_square 0 game0)) = score game0 + 200 \<and>
   card (set (findMatches board_block6)) = 6 \<and>
   score (snd (chainPass board_block6 0 game0)) = score game0 + 520"
  by code_simp

section \<open>Removal on concrete lists\<close>

text \<open>Claim C10 on the list of matches of a board, and on a list with a repeated position.\<close>

theorem removeMatchedPuyos_frame_witness:
  "list_all (in_grid board_line4) (findMatches board_line4) \<and>
   removeMatchedPuyos board_line4 (findMatches board_line4)
     = removeMatchedPuyos board_line4 (remdups (findMatches board_line4)) \<and>
   removeMatchedPuyos board_line4 (findMatches board_line4) = createEmptyGrid \<and>
   cell (removeMatchedPuyos board_line4 [(11, 0), (11, 1), (11, 0)]) 11 0 = None \<and>
   cell (removeMatchedPuyos board_line4 [(11, 0), (11, 1), (11, 0)]) 11 2 = Some Red"
proof -
  have a: "\<forall>p \<in> set (findMatches board_line4). in_grid board_line4 p" by code_simp
  have b: "\<forall>p \<in> set [(11, 0), (11, 1), (11, 0)]. in_grid board_line4 p" by code_simp
  have c: "in_grid board_line4 (11, 0)" "in_grid board_line4 (11, 2)" by code_simp+
  have d: "cell board_line4 11 2 = Some Red" by code_simp
  have e: "removeMatchedPuyos board_line4 (remdups (findMatches board_line4)) = createEmptyGrid"
    by code_simp
  let ?ms = "[(11, 0), (11, 1), (11, 0)] :: (int \<times> int) list"
  from removeMatchedPuyos_frame [OF b]
  have cells: "\<forall>p. in_grid board_line4 p \<longrightarrow>
        cell (removeMatchedPuyos board_line4 ?ms) (fst p) (snd p)
          = (if p \<in> set ?ms then None else cell board_line4 (fst p) (snd p))"
    by blast
  have f: "cell (removeMatchedPuyos board_line4 ?ms) 11 0 = None"
    using cells [rule_format, OF c(1)] by simp
  have g: "cell (removeMatchedPuyos board_line4 ?ms) 11 2 = Some Red"
    using cells [rule_format, OF c(2)] d by simp
  from removeMatchedPuyos_frame [OF a]
  have "removeMatchedPuyos board_line4 (findMatches board_line4)
     = removeMatchedPuyos board_line4 (remdups (findMatches board_line4))"
    by blast
  with a e f g show ?thesis by (simp add: list_all_iff)
qed

section \<open>The piece controller and the hold\<close>

lemma placePuyo_out_of_bounds:
  "currentPuyo s = Some cp \<Longrightarrow> \<not> in_bounds cp \<Longrightarrow> placePuyo rnd s = Some (s\<lparr>gameState := Over\<rparr>)"
  by (auto simp: placePuyo_def in_bounds_def Let_def split: prod.splits)

lemma placePuyo_in_bounds:
  "currentPuyo s = Some cp \<Longrightarrow> in_bounds cp \<Longrightarrow>
   placePuyo rnd s =
     map_option (\<lambda>s2. s2\<lparr>currentPuyo := (case nextPuyos s of [] \<Rightarrow> None | p # _ \<Rightarrow> Some p),
                          nextPuyos := tl (nextPuyos s) @ [generatePuyoPair rnd]\<rparr>)
       (animateChain (lock_grid (grid s) cp) 0
          (s\<lparr>grid := lock_grid (grid s) cp, currentPuyo := None, canHold := True\<rparr>))"
  by (auto simp: placePuyo_def in_bounds_def lock_grid_def Let_def split: prod.splits option.splits)

lemma wf_grid_set_cell: "wf_grid g \<Longrightarrow> wf_grid (set_cell g y x v)"
  by (simp add: wf_grid_def rect_set_cell)

lemma wf_grid_lock_grid: "wf_grid g \<Longrightarrow> wf_grid (lock_grid g cp)"
  by (simp add: lock_grid_def wf_grid_set_cell wf_grid_applyGravity split: prod.splits)

text \<open>On a board, locking a piece and moving a piece return.\<close>

lemma placePuyo_returns: "wf_grid (grid s) \<Longrightarrow> \<exists>s'. placePuyo rnd s = Some s'"
proof (cases "currentPuyo s")
  case None
  then show ?thesis by (simp add: placePuyo_def)
next
  case (Some cp)
  assume wf: "wf_grid (grid s)"
  show ?thesis
  proof (cases "in_bounds cp")
    case False
    then show ?thesis using placePuyo_out_of_bounds [OF Some] by blast
  next
    case True
    from animateChain_returns [OF wf_grid_lock_grid [OF wf]]
    obtain s2 where "animateChain (lock_grid (grid s) cp) 0
                       (s\<lparr>grid := lock_grid (grid s) cp, currentPuyo := None, canHold := True\<rparr>)
                     = Some s2"
      by blast
    then show ?thesis using placePuyo_in_bounds [OF Some True, of rnd] by simp
  qed
qed

lemma movePuyo_returns: "wf_grid (grid s) \<Longrightarrow> \<exists>s'. movePuyo d rnd s = Some s'"
  using placePuyo_returns [of s rnd]
  by (auto simp: movePuyo_def Let_def split: option.splits)

lemma spawn_piece_facts:
  assumes "x_coord p = 2" "y_coord p = 0" "rotation p = 0"
  shows "\<not> in_bounds p"
    and "\<not> isValidMove g (moved Left p)"
    and "\<not> isValidMove g (moved Right p)"
    and "cell g 0 2 \<noteq> None \<Longrightarrow> \<not> isValidMove g (rotated d p)"
    and "cell g 0 2 \<noteq> None \<Longrightarrow> \<not> isValidMove g (moved Down p)"
  using assms
  by (auto simp: in_bounds_def isValidMove_def moved_def rotated_def getSecondPuyoPosition_def
                 js_rem_def Let_def split: prod.splits if_splits)

lemma spawn_after_lock:
  assumes "currentPuyo s = Some cp" "in_bounds cp" "nextPuyos s = p # ps"
    and "placePuyo rnd s = Some s'"
  shows "gameState s' = gameState s \<and> currentPuyo s' = Some p \<and>
         (gameState s = Active \<and> \<not> isPaused s \<and>
          x_coord p = 2 \<and> y_coord p = 0 \<and> rotation p = 0 \<and> cell (grid s') 0 2 \<noteq> None \<longrightarrow>
            movePuyo Left r s' = Some s' \<and> movePuyo Right r s' = Some s' \<and>
            rotatePuyo d s' = s' \<and>
            movePuyo Down r s' = Some (s'\<lparr>gameState := Over\<rparr>))"
proof -
  let ?s1 = "s\<lparr>grid := lock_grid (grid s) cp, currentPuyo := None, canHold := True\<rparr>"
  from assms(4) placePuyo_in_bounds [OF assms(1,2), of rnd]
  obtain s2 where s2: "animateChain (lock_grid (grid s) cp) 0 ?s1 = Some s2"
    and s': "s' = s2\<lparr>currentPuyo := Some p, nextPuyos := ps @ [generatePuyoPair rnd]\<rparr>"
    using assms(3) by auto
  from animateChain_frame [OF s2]
  have fr: "gameState s2 = gameState s" "isPaused s2 = isPaused s" by simp_all
  have a: "gameState s' = gameState s" "isPaused s' = isPaused s" "currentPuyo s' = Some p"
    using fr s' by simp_all
  have b: "movePuyo Left r s' = Some s' \<and> movePuyo Right r s' = Some s' \<and>
            rotatePuyo d s' = s' \<and> movePuyo Down r s' = Some (s'\<lparr>gameState := Over\<rparr>)"
    if act: "gameState s = Active" "\<not> isPaused s"
      and sp: "x_coord p = 2" "y_coord p = 0" "rotation p = 0"
      and occ: "cell (grid s') 0 2 \<noteq> None"
  proof -
    note f = spawn_piece_facts [OF sp]
    have "movePuyo Left r s' = Some s'"
      using a act f(2) [of "grid s'"] by (simp add: movePuyo_def)
    moreover have "movePuyo Right r s' = Some s'"
      using a act f(3) [of "grid s'"] by (simp add: movePuyo_def)
    moreover have "rotatePuyo d s' = s'"
      using a act f(4) [OF occ, of d] by (simp add: rotatePuyo_def)
    moreover have "movePuyo Down r s' = placePuyo r s'"
      using a act f(5) [OF occ] by (simp add: movePuyo_def)
    moreover have "placePuyo r s' = Some (s'\<lparr>gameState := Over\<rparr>)"
      by (rule placePuyo_out_of_bounds [OF a(3) f(1)])
    ultimately show ?thesis by simp
  qed
  show ?thesis using a b by blast
qed

text \<open>
  Claim C3, as the code has it.  Spawning is not checked against the board: when
  \<open>placePuyo\<close> locks a piece whose cells are inside the board, it returns, the front of
  the queue becomes the active piece and the phase is unchanged, whatever the board holds at
  the spawn cell.  If the spawn cell (row 0, column 2) is occupied then, the spawned piece (column 2,
  row 0, pointing up) accepts no Left or Right move and no rotation, and its first Down
  move sets the phase to \<open>Over\<close> and leaves everything else as it is.
\<close>

theorem spawn_without_check:
  assumes "currentPuyo s = Some cp" "in_bounds cp" "nextPuyos s = p # ps" "wf_grid (grid s)"
  shows "\<exists>s'. placePuyo rnd s = Some s' \<and>
           gameState s' = gameState s \<and> currentPuyo s' = Some p \<and>
           (gameState s = Active \<and> \<not> isPaused s \<and>
            x_coord p = 2 \<and> y_coord p = 0 \<and> rotation p = 0 \<and> cell (grid s') 0 2 \<noteq> None \<longrightarrow>
              movePuyo Left r s' = Some s' \<and> movePuyo Right r s' = Some s' \<and>
              rotatePuyo d s' = s' \<and>
              movePuyo Down r s' = Some (s'\<lparr>gameState := Over\<rparr>))"
proof -
  from placePuyo_returns [OF assms(4)] obtain s' where s': "placePuyo rnd s = Some s'"
    by blast
  from spawn_after_lock [OF assms(1-3) s', of r d] s' show ?thesis by blast
qed

lemma lock_on_stacked:
  "placePuyo (Red, Red) (rotatePuyo RotRight stacked) = Some after_lock"
  by code_simp

text \<open>
  Claim C3 on the stacked board: the piece, turned to the right, locks into row 0.
\<close>

theorem spawn_without_check_witness:
  "currentPuyo (rotatePuyo RotRight stacked)
     = Some \<lparr>color1 = Some Purple, color2 = Some Purple, x_coord = 2, y_coord = 0, rotation = 1\<rparr> \<and>
   placePuyo (Red, Red) (rotatePuyo RotRight stacked) = Some after_lock \<and>
   cell (grid after_lock) 0 2 = Some Purple \<and>
   gameState after_lock = Active \<and>
   currentPuyo after_lock = Some (generatePuyoPair (Blue, Blue)) \<and>
   movePuyo Left (Green, Green) after_lock = Some after_lock \<and>
   rotatePuyo RotLeft after_lock = after_lock \<and>
   movePuyo Down (Green, Green) after_lock = Some (after_lock\<lparr>gameState := Over\<rparr>)"
proof -
  let ?cp = "\<lparr>color1 = Some Purple, color2 = Some Purple, x_coord = 2, y_coord = 0, rotation = 1\<rparr>"
  have cur: "currentPuyo (rotatePuyo RotRight stacked) = Some ?cp" by code_simp
  have inb: "in_bounds ?cp" by code_simp
  have nxt: "nextPuyos (rotatePuyo RotRight stacked)
             = generatePuyoPair (Blue, Blue) # [generatePuyoPair (Yellow, Purple), generatePuyoPair (Green, Red)]"
    by code_simp
  have st: "gameState (rotatePuyo RotRight stacked) = Active" "\<not> isPaused (rotatePuyo RotRight stacked)"
    by code_simp+
  have sp: "x_coord (generatePuyoPair (Blue, Blue)) = 2" "y_coord (generatePuyoPair (Blue, Blue)) = 0"
    "rotation (generatePuyoPair (Blue, Blue)) = 0"
    by (simp_all add: generatePuyoPair_def)
  have occ: "cell (grid after_lock) 0 2 = Some Purple" by code_simp
  have wf: "wf_grid (grid (rotatePuyo RotRight stacked))" by code_simp
  from spawn_without_check [OF cur inb nxt wf, of "(Red, Red)" "(Green, Green)" RotLeft]
  obtain s' where s': "placePuyo (Red, Red) (rotatePuyo RotRight stacked) = Some s'"
    and f: "gameState s' = gameState (rotatePuyo RotRight stacked)"
      "currentPuyo s' = Some (generatePuyoPair (Blue, Blue))"
      "gameState (rotatePuyo RotRight stacked) = Active \<and> \<not> isPaused (rotatePuyo RotRight stacked) \<and>
       x_coord (generatePuyoPair (Blue, Blue)) = 2 \<and> y_coord (generatePuyoPair (Blue, Blue)) = 0 \<and>
       rotation (generatePuyoPair (Blue, Blue)) = 0 \<and> cell (grid s') 0 2 \<noteq> None \<longrightarrow>
         movePuyo Left (Green, Green) s' = Some s' \<and> movePuyo Right (Green, Green) s' = Some s' \<and>
         rotatePuyo RotLeft s' = s' \<and>
         movePuyo Down (Green, Green) s' = Some (s'\<lparr>gameState := Over\<rparr>)"
    by blast
  have eq: "s' = after_lock" using s' lock_on_stacked by simp
  show ?thesis using f cur st sp occ lock_on_stacked unfolding eq by simp
qed

text \<open>
  Claim C3 as stated fails there: the spawn cell is occupied after the lock, the next piece
  is in play and the phase is still \<open>Active\<close>; a hold on that board draws the
  following piece, again without game over.
\<close>

theorem spawn_on_occupied_cell_counterexample:
  "movePuyo Down (Red, Red) (rotatePuyo RotRight stacked) = Some after_lock \<and>
   cell (grid after_lock) 0 2 = Some Purple \<and>
   gameState after_lock = Active \<and>
   currentPuyo after_lock = Some (generatePuyoPair (Blue, Blue)) \<and>
   gameState (holdPuyo (Red, Red) after_lock) = Active \<and>
   currentPuyo (holdPuyo (Red, Red) after_lock) = Some (generatePuyoPair (Yellow, Purple))"
  by code_simp

lemma isValidMove_in_bounds:
  "isValidMove g q \<Longrightarrow>
   in_bounds q \<and> cell g (y_coord q) (x_coord q) = None \<and>
   cell g (snd (getSecondPuyoPosition (x_coord q) (y_coord q) (rotation q)))
          (fst (getSecondPuyoPosition (x_coord q) (y_coord q) (rotation q))) = None"
  by (auto simp: isValidMove_def in_bounds_def Let_def split: prod.splits)

lemma movePuyo_cases:
  "movePuyo d rnd s = Some s' \<Longrightarrow>
   s' = s \<or>
   (\<exists>cp. currentPuyo s = Some cp \<and> isValidMove (grid s') (moved d cp) \<and>
         s' = s\<lparr>currentPuyo := Some (moved d cp)\<rparr>) \<or>
   (d = Down \<and> placePuyo rnd s = Some s')"
  by (auto simp: movePuyo_def Let_def split: option.splits if_splits)

lemma rotatePuyo_cases:
  "rotatePuyo rd s = s \<or>
   (\<exists>cp. currentPuyo s = Some cp \<and> isValidMove (grid (rotatePuyo rd s)) (rotated rd cp) \<and>
         rotatePuyo rd s = s\<lparr>currentPuyo := Some (rotated rd cp)\<rparr>)"
  by (auto simp: rotatePuyo_def Let_def split: option.splits if_splits)

lemma generatePuyoPair_at_spawn:
  "x_coord (generatePuyoPair rnd) = 2" "y_coord (generatePuyoPair rnd) = 0"
  "rotation (generatePuyoPair rnd) = 0"
  by (simp_all add: generatePuyoPair_def)

lemma spawn_piece_invalid:
  "x_coord p = 2 \<Longrightarrow> y_coord p = 0 \<Longrightarrow> rotation p = 0 \<Longrightarrow> \<not> isValidMove g p"
  by (simp add: isValidMove_def getSecondPuyoPosition_def Let_def)

text \<open>
  Claim C4, as the code has it.  A move or a rotation changes the active piece only to a
  candidate that \<open>isValidMove\<close> accepts (a Down move with an invalid candidate calls
  \<open>placePuyo\<close> instead), an accepted piece has both cells inside the board and on
  empty cells, and on a board every move returns.  The spawn and the hold swap are not checked: a generated piece, and a held
  piece swapped back, sits at column 2, row 0, pointing up, with its second cell at row
  \<open>-1\<close>, outside the board, so \<open>isValidMove\<close> never holds of it.
\<close>

theorem committed_pieces_are_valid:
  "(movePuyo d rnd s = Some s' \<longrightarrow>
      s' = s \<or>
      (\<exists>cp. currentPuyo s = Some cp \<and> isValidMove (grid s') (moved d cp) \<and>
            s' = s\<lparr>currentPuyo := Some (moved d cp)\<rparr>) \<or>
      (d = Down \<and> placePuyo rnd s = Some s')) \<and>
   (rotatePuyo rd s = s \<or>
      (\<exists>cp. currentPuyo s = Some cp \<and> isValidMove (grid (rotatePuyo rd s)) (rotated rd cp) \<and>
            rotatePuyo rd s = s\<lparr>currentPuyo := Some (rotated rd cp)\<rparr>)) \<and>
   (isValidMove g q \<longrightarrow>
      in_bounds q \<and> cell g (y_coord q) (x_coord q) = None \<and>
      cell g (snd (getSecondPuyoPosition (x_coord q) (y_coord q) (rotation q)))
             (fst (getSecondPuyoPosition (x_coord q) (y_coord q) (rotation q))) = None) \<and>
   \<not> in_bounds (generatePuyoPair rnd) \<and> \<not> isValidMove g (generatePuyoPair rnd) \<and>
   (currentPuyo s = Some cp \<and> canHold s \<and> gameState s = Active \<and> \<not> isPaused s \<and>
    heldPuyo s = Some hp \<longrightarrow>
      currentPuyo (holdPuyo rnd s) = Some (hp\<lparr>x_coord := 2, y_coord := 0, rotation := 0\<rparr>) \<and>
      \<not> isValidMove (grid (holdPuyo rnd s)) (hp\<lparr>x_coord := 2, y_coord := 0, rotation := 0\<rparr>)) \<and>
   (wf_grid (grid s) \<longrightarrow> (\<exists>s''. movePuyo d rnd s = Some s''))"
proof -
  have "\<not> in_bounds (generatePuyoPair rnd)"
    by (rule spawn_piece_facts(1) [OF generatePuyoPair_at_spawn])
  moreover have "\<not> isValidMove g (generatePuyoPair rnd)"
    by (rule spawn_piece_invalid [OF generatePuyoPair_at_spawn])
  moreover have "currentPuyo s = Some cp \<and> canHold s \<and> gameState s = Active \<and> \<not> isPaused s \<and>
    heldPuyo s = Some hp \<longrightarrow>
      currentPuyo (holdPuyo rnd s) = Some (hp\<lparr>x_coord := 2, y_coord := 0, rotation := 0\<rparr>) \<and>
      \<not> isValidMove (grid (holdPuyo rnd s)) (hp\<lparr>x_coord := 2, y_coord := 0, rotation := 0\<rparr>)"
    by (simp add: holdPuyo_def spawn_piece_invalid)
  moreover have "wf_grid (grid s) \<longrightarrow> (\<exists>s''. movePuyo d rnd s = Some s'')"
    using movePuyo_returns [of s d rnd] by blast
  ultimately show ?thesis
    using movePuyo_cases [of d rnd s s'] rotatePuyo_cases [of rd s] isValidMove_in_bounds [of g q]
    by blast
qed

text \<open>Claim C4 on the started session: a Down move and a rotation are committed.\<close>

theorem committed_pieces_are_valid_witness:
  "movePuyo Down (Red, Red) started
     = Some (started\<lparr>currentPuyo := Some (moved Down (generatePuyoPair (Purple, Purple)))\<rparr>) \<and>
   isValidMove (grid started) (moved Down (generatePuyoPair (Purple, Purple))) \<and>
   in_bounds (moved Down (generatePuyoPair (Purple, Purple))) \<and>
   rotatePuyo RotRight started
     = started\<lparr>currentPuyo := Some (rotated RotRight (generatePuyoPair (Purple, Purple)))\<rparr> \<and>
   isValidMove (grid started) (rotated RotRight (generatePuyoPair (Purple, Purple))) \<and>
   \<not> isValidMove (grid started) (generatePuyoPair (Purple, Purple))"
proof -
  have mv: "movePuyo Down (Red, Red) started
     = Some (started\<lparr>currentPuyo := Some (moved Down (generatePuyoPair (Purple, Purple)))\<rparr>)"
    by code_simp
  have v: "isValidMove (grid started) (moved Down (generatePuyoPair (Purple, Purple)))"
    by code_simp
  have rt: "rotatePuyo RotRight started
     = started\<lparr>currentPuyo := Some (rotated RotRight (generatePuyoPair (Purple, Purple)))\<rparr>"
    by code_simp
  have rv: "isValidMove (grid started) (rotated RotRight (generatePuyoPair (Purple, Purple)))"
    by code_simp
  from committed_pieces_are_valid
    [of Down "(Red, Red)" started
        "started\<lparr>currentPuyo := Some (moved Down (generatePuyoPair (Purple, Purple)))\<rparr>"
        RotRight "grid started" "moved Down (generatePuyoPair (Purple, Purple))"]
  have "in_bounds (moved Down (generatePuyoPair (Purple, Purple)))"
    and "\<not> isValidMove (grid started) (generatePuyoPair (Red, Red))"
    using v by blast+
  moreover have "\<not> isValidMove (grid started) (generatePuyoPair (Purple, Purple))"
    using committed_pieces_are_valid [of _ "(Purple, Purple)" _ _ _ "grid started"] by blast
  ultimately show ?thesis using mv v rt rv by simp
qed

text \<open>
  Claim C4 as stated fails at the spawn: the first piece of a session has its second cell
  outside the board.
\<close>

theorem piece_at_spawn_counterexample:
  "currentPuyo started = Some (generatePuyoPair (Purple, Purple)) \<and>
   getSecondPuyoPosition 2 0 0 = (2, - 1) \<and>
   \<not> in_bounds (generatePuyoPair (Purple, Purple)) \<and>
   \<not> isValidMove (grid started) (generatePuyoPair (Purple, Purple))"
  by code_simp

text \<open>
  Claim C5, as the code has it.  With a piece active on a board: an invalid Left or Right
  move and an invalid rotation leave the whole state unchanged; an invalid Down move is the
  call of \<open>placePuyo\<close>, which sets the phase to \<open>Over\<close> and writes nothing when a
  cell of the piece is outside the board, and otherwise writes the piece into the board,
  applies gravity, resolves the chain (which returns) and takes the next piece from the
  queue.  The functions return no value.
\<close>

theorem invalid_moves_and_lock:
  assumes "currentPuyo s = Some cp" "gameState s = Active" "\<not> isPaused s" "wf_grid (grid s)"
  shows "(d \<noteq> Down \<and> \<not> isValidMove (grid s) (moved d cp) \<longrightarrow> movePuyo d rnd s = Some s) \<and>
         (\<not> isValidMove (grid s) (rotated rd cp) \<longrightarrow> rotatePuyo rd s = s) \<and>
         (\<not> isValidMove (grid s) (moved Down cp) \<longrightarrow> movePuyo Down rnd s = placePuyo rnd s) \<and>
         (\<not> in_bounds cp \<longrightarrow> placePuyo rnd s = Some (s\<lparr>gameState := Over\<rparr>)) \<and>
         (in_bounds cp \<longrightarrow>
            (\<exists>s2. animateChain (lock_grid (grid s) cp) 0
                     (s\<lparr>grid := lock_grid (grid s) cp, currentPuyo := None, canHold := True\<rparr>)
                   = Some s2 \<and>
                  placePuyo rnd s =
                    Some (s2\<lparr>currentPuyo := (case nextPuyos s of [] \<Rightarrow> None | p # _ \<Rightarrow> Some p),
                             nextPuyos := tl (nextPuyos s) @ [generatePuyoPair rnd]\<rparr>)))"
proof -
  have "d \<noteq> Down \<and> \<not> isValidMove (grid s) (moved d cp) \<longrightarrow> movePuyo d rnd s = Some s"
    using assms(1-3) by (simp add: movePuyo_def)
  moreover have "\<not> isValidMove (grid s) (rotated rd cp) \<longrightarrow> rotatePuyo rd s = s"
    using assms(1-3) by (simp add: rotatePuyo_def)
  moreover have "\<not> isValidMove (grid s) (moved Down cp) \<longrightarrow> movePuyo Down rnd s = placePuyo rnd s"
    using assms(1-3) by (simp add: movePuyo_def)
  moreover have "\<not> in_bounds cp \<longrightarrow> placePuyo rnd s = Some (s\<lparr>gameState := Over\<rparr>)"
    using placePuyo_out_of_bounds [OF assms(1)] by blast
  moreover have "in_bounds cp \<longrightarrow>
            (\<exists>s2. animateChain (lock_grid (grid s) cp) 0
                     (s\<lparr>grid := lock_grid (grid s) cp, currentPuyo := None, canHold := True\<rparr>)
                   = Some s2 \<and>
                  placePuyo rnd s =
                    Some (s2\<lparr>currentPuyo := (case nextPuyos s of [] \<Rightarrow> None | p # _ \<Rightarrow> Some p),
                             nextPuyos := tl (nextPuyos s) @ [generatePuyoPair rnd]\<rparr>))"
  proof
    assume inb: "in_bounds cp"
    from animateChain_returns [OF wf_grid_lock_grid [OF assms(4)]]
    obtain s2 where "animateChain (lock_grid (grid s) cp) 0
                     (s\<lparr>grid := lock_grid (grid s) cp, currentPuyo := None, canHold := True\<rparr>)
                   = Some s2"
      by blast
    then show "\<exists>s2. animateChain (lock_grid (grid s) cp) 0
                     (s\<lparr>grid := lock_grid (grid s) cp, currentPuyo := None, canHold := True\<rparr>)
                   = Some s2 \<and>
                  placePuyo rnd s =
                    Some (s2\<lparr>currentPuyo := (case nextPuyos s of [] \<Rightarrow> None | p # _ \<Rightarrow> Some p),
                             nextPuyos := tl (nextPuyos s) @ [generatePuyoPair rnd]\<rparr>)"
      using placePuyo_in_bounds [OF assms(1) inb, of rnd] by simp
  qed
  ultimately show ?thesis by blast
qed

text \<open>Claim C5 on the stacked board, for the piece at its spawn position and turned right.\<close>

theorem invalid_moves_and_lock_witness:
  "currentPuyo stacked = Some (generatePuyoPair (Purple, Purple)) \<and>
   gameState stacked = Active \<and> wf_grid (grid stacked) \<and>
   movePuyo Left (Red, Red) stacked = Some stacked \<and>
   rotatePuyo RotLeft (rotatePuyo RotRight stacked) = rotatePuyo RotRight stacked \<and>
   movePuyo Down (Red, Red) stacked = Some (stacked\<lparr>gameState := Over\<rparr>) \<and>
   movePuyo Down (Red, Red) (rotatePuyo RotRight stacked) = Some after_lock \<and>
   grid after_lock = lock_grid (grid stacked) (rotated RotRight (generatePuyoPair (Purple, Purple)))"
proof -
  let ?p = "generatePuyoPair (Purple, Purple)"
  let ?r = "rotatePuyo RotRight stacked"
  have c: "currentPuyo stacked = Some ?p" "gameState stacked = Active" "\<not> isPaused stacked"
    "wf_grid (grid stacked)"
    by code_simp+
  have cr: "currentPuyo ?r = Some (rotated RotRight ?p)" "gameState ?r = Active" "\<not> isPaused ?r"
    "wf_grid (grid ?r)"
    by code_simp+
  have i: "\<not> isValidMove (grid stacked) (moved Left ?p)" "\<not> isValidMove (grid stacked) (moved Down ?p)"
    "\<not> in_bounds ?p"
    by code_simp+
  have ir: "\<not> isValidMove (grid ?r) (rotated RotLeft (rotated RotRight ?p))"
    "\<not> isValidMove (grid ?r) (moved Down (rotated RotRight ?p))"
    by code_simp+
  have g: "grid after_lock = lock_grid (grid stacked) (rotated RotRight ?p)" by code_simp
  note a = invalid_moves_and_lock [OF c, of Left "(Red, Red)" RotLeft]
  note b = invalid_moves_and_lock [OF cr, of Left "(Red, Red)" RotLeft]
  from a i have "movePuyo Left (Red, Red) stacked = Some stacked"
    and "movePuyo Down (Red, Red) stacked = Some (stacked\<lparr>gameState := Over\<rparr>)"
    by simp_all
  moreover from b ir have "rotatePuyo RotLeft ?r = ?r"
    and "movePuyo Down (Red, Red) ?r = placePuyo (Red, Red) ?r"
    by simp_all
  ultimately show ?thesis using c g lock_on_stacked by simp
qed

text \<open>
  Claim C5 as stated fails for the piece at its spawn position on the stacked board: its
  Down move is invalid, and the piece is not locked into the board; the phase becomes
  \<open>Over\<close> and the board is unchanged.
\<close>

theorem blocked_down_move_counterexample:
  "currentPuyo stacked = Some (generatePuyoPair (Purple, Purple)) \<and>
   \<not> isValidMove (grid stacked) (moved Down (generatePuyoPair (Purple, Purple))) \<and>
   movePuyo Down (Red, Red) stacked = Some (stacked\<lparr>gameState := Over\<rparr>) \<and>
   grid (stacked\<lparr>gameState := Over\<rparr>) = board_stacked"
  by code_simp

lemma js_rem_values:
  "js_rem 4 4 = 0" "js_rem 5 4 = 1" "js_rem 6 4 = 2" "js_rem 7 4 = 3" "js_rem 3 4 = 3"
  "js_rem 8 4 = 0"
  by (simp_all add: js_rem_def)

lemma rotated_rotation:
  "0 \<le> rotation cp \<Longrightarrow> rotation cp \<le> 3 \<Longrightarrow>
   rotation (rotated RotRight cp) = (rotation cp + 1) mod 4 \<and>
   rotation (rotated RotLeft cp) = (rotation cp - 1) mod 4"
proof -
  assume "0 \<le> rotation cp" "rotation cp \<le> 3"
  then have "rotation cp = 0 \<or> rotation cp = 1 \<or> rotation cp = 2 \<or> rotation cp = 3" by auto
  then show ?thesis by (elim disjE) (simp_all add: rotated_def js_rem_values)
qed

lemma rotated_cycle:
  assumes "0 \<le> rotation cp" "rotation cp \<le> 3"
  shows "rotated RotRight (rotated RotRight (rotated RotRight (rotated RotRight cp))) = cp"
    and "rotated RotRight (rotated RotLeft cp) = cp"
proof -
  let ?R = "\<lambda>r. js_rem (r + 1 + 4) 4"
  let ?L = "\<lambda>r. js_rem (r + - 1 + 4) 4"
  have r: "rotation cp = 0 \<or> rotation cp = 1 \<or> rotation cp = 2 \<or> rotation cp = 3"
    using assms by auto
  have four: "?R (?R (?R (?R (rotation cp)))) = rotation cp"
    using r by (elim disjE) (simp_all add: js_rem_values)
  have two: "?R (?L (rotation cp)) = rotation cp"
    using r by (elim disjE) (simp_all add: js_rem_values)
  have "rotated RotRight (rotated RotRight (rotated RotRight (rotated RotRight cp)))
        = cp\<lparr>rotation := ?R (?R (?R (?R (rotation cp))))\<rparr>"
    by (simp add: rotated_def)
  also have "\<dots> = cp" by (simp only: four) simp
  finally show "rotated RotRight (rotated RotRight (rotated RotRight (rotated RotRight cp))) = cp" .
  have "rotated RotRight (rotated RotLeft cp) = cp\<lparr>rotation := ?R (?L (rotation cp))\<rparr>"
    by (simp add: rotated_def)
  also have "\<dots> = cp" by (simp only: two) simp
  finally show "rotated RotRight (rotated RotLeft cp) = cp" .
qed

lemma rotatePuyo_commit:
  "currentPuyo s = Some cp \<Longrightarrow> gameState s = Active \<Longrightarrow> \<not> isPaused s \<Longrightarrow>
   isValidMove (grid s) (rotated d cp) \<Longrightarrow>
   rotatePuyo d s = s\<lparr>currentPuyo := Some (rotated d cp)\<rparr>"
  by (simp add: rotatePuyo_def)

text \<open>
  Claim C9, as the code has it.  For an orientation in 0..3 the candidate orientation is
  the old one plus or minus one modulo 4, four turns to the right give the piece back, and
  so does a turn to the left followed by one to the right.  \<open>rotatePuyo\<close> returns to the
  original state after four turns to the right when all four placements are valid, and
  after a left and a right turn when the left placement and the original one are valid.
\<close>

theorem rotation_cycle:
  assumes "0 \<le> rotation cp" "rotation cp \<le> 3"
  shows "rotation (rotated RotRight cp) = (rotation cp + 1) mod 4 \<and>
         rotation (rotated RotLeft cp) = (rotation cp - 1) mod 4 \<and>
         rotated RotRight (rotated RotRight (rotated RotRight (rotated RotRight cp))) = cp \<and>
         rotated RotRight (rotated RotLeft cp) = cp \<and>
         (currentPuyo s = Some cp \<and> gameState s = Active \<and> \<not> isPaused s \<and>
          isValidMove (grid s) (rotated RotRight cp) \<and>
          isValidMove (grid s) (rotated RotRight (rotated RotRight cp)) \<and>
          isValidMove (grid s) (rotated RotRight (rotated RotRight (rotated RotRight cp))) \<and>
          isValidMove (grid s) cp \<longrightarrow>
            rotatePuyo RotRight (rotatePuyo RotRight (rotatePuyo RotRight (rotatePuyo RotRight s))) = s) \<and>
         (currentPuyo s = Some cp \<and> gameState s = Active \<and> \<not> isPaused s \<and>
          isValidMove (grid s) (rotated RotLeft cp) \<and> isValidMove (grid s) cp \<longrightarrow>
            rotatePuyo RotRight (rotatePuyo RotLeft s) = s)"
proof -
  note cyc = rotated_cycle [OF assms]
  have four: "rotatePuyo RotRight (rotatePuyo RotRight (rotatePuyo RotRight (rotatePuyo RotRight s))) = s"
    if c: "currentPuyo s = Some cp" "gameState s = Active" "\<not> isPaused s"
      and v1: "isValidMove (grid s) (rotated RotRight cp)"
      and v2: "isValidMove (grid s) (rotated RotRight (rotated RotRight cp))"
      and v3: "isValidMove (grid s) (rotated RotRight (rotated RotRight (rotated RotRight cp)))"
      and v4: "isValidMove (grid s) cp"
  proof -
    let ?c1 = "rotated RotRight cp"
    let ?c2 = "rotated RotRight ?c1"
    let ?c3 = "rotated RotRight ?c2"
    have s1: "rotatePuyo RotRight s = s\<lparr>currentPuyo := Some ?c1\<rparr>"
      by (rule rotatePuyo_commit [OF c v1])
    have s2: "rotatePuyo RotRight (s\<lparr>currentPuyo := Some ?c1\<rparr>) = s\<lparr>currentPuyo := Some ?c2\<rparr>"
      using rotatePuyo_commit [of "s\<lparr>currentPuyo := Some ?c1\<rparr>" ?c1 RotRight] c v2 by simp
    have s3: "rotatePuyo RotRight (s\<lparr>currentPuyo := Some ?c2\<rparr>) = s\<lparr>currentPuyo := Some ?c3\<rparr>"
      using rotatePuyo_commit [of "s\<lparr>currentPuyo := Some ?c2\<rparr>" ?c2 RotRight] c v3 by simp
    have s4: "rotatePuyo RotRight (s\<lparr>currentPuyo := Some ?c3\<rparr>) = s\<lparr>currentPuyo := Some cp\<rparr>"
      using rotatePuyo_commit [of "s\<lparr>currentPuyo := Some ?c3\<rparr>" ?c3 RotRight] c v4 cyc(1) by simp
    have "s\<lparr>currentPuyo := Some cp\<rparr> = s" using c(1) by simp
    then show ?thesis by (simp only: s1 s2 s3 s4)
  qed
  have two: "rotatePuyo RotRight (rotatePuyo RotLeft s) = s"
    if c: "currentPuyo s = Some cp" "gameState s = Active" "\<not> isPaused s"
      and v1: "isValidMove (grid s) (rotated RotLeft cp)"
      and v2: "isValidMove (grid s) cp"
  proof -
    let ?c1 = "rotated RotLeft cp"
    have s1: "rotatePuyo RotLeft s = s\<lparr>currentPuyo := Some ?c1\<rparr>"
      by (rule rotatePuyo_commit [OF c v1])
    have s2: "rotatePuyo RotRight (s\<lparr>currentPuyo := Some ?c1\<rparr>) = s\<lparr>currentPuyo := Some cp\<rparr>"
      using rotatePuyo_commit [of "s\<lparr>currentPuyo := Some ?c1\<rparr>" ?c1 RotRight] c v2 cyc(2) by simp
    have "s\<lparr>currentPuyo := Some cp\<rparr> = s" using c(1) by simp
    then show ?thesis by (simp only: s1 s2)
  qed
  show ?thesis
    using rotated_rotation [OF assms] cyc four two by blast
qed

text \<open>Claim C9 for a piece in the middle of the empty board.\<close>

theorem rotation_cycle_witness:
  "currentPuyo midfield
     = Some \<lparr>color1 = Some Purple, color2 = Some Purple, x_coord = 2, y_coord = 5, rotation = 0\<rparr> \<and>
   map_option rotation (currentPuyo (rotatePuyo RotRight midfield)) = Some 1 \<and>
   map_option rotation (currentPuyo (rotatePuyo RotLeft midfield)) = Some 3 \<and>
   rotatePuyo RotRight (rotatePuyo RotRight (rotatePuyo RotRight (rotatePuyo RotRight midfield)))
     = midfield \<and>
   rotatePuyo RotRight (rotatePuyo RotLeft midfield) = midfield"
proof -
  let ?cp = "\<lparr>color1 = Some Purple, color2 = Some Purple, x_coord = 2, y_coord = 5, rotation = 0\<rparr>"
  have r: "0 \<le> rotation ?cp" "rotation ?cp \<le> 3" by simp_all
  have c: "currentPuyo midfield = Some ?cp" "gameState midfield = Active" "\<not> isPaused midfield"
    by code_simp+
  have v: "isValidMove (grid midfield) (rotated RotRight ?cp)"
    "isValidMove (grid midfield) (rotated RotRight (rotated RotRight ?cp))"
    "isValidMove (grid midfield) (rotated RotRight (rotated RotRight (rotated RotRight ?cp)))"
    "isValidMove (grid midfield) ?cp"
    "isValidMove (grid midfield) (rotated RotLeft ?cp)"
    by code_simp+
  have e: "map_option rotation (currentPuyo (rotatePuyo RotRight midfield)) = Some 1"
    "map_option rotation (currentPuyo (rotatePuyo RotLeft midfield)) = Some 3"
    by code_simp+
  from rotation_cycle [OF r, of midfield] c v e show ?thesis by simp
qed

text \<open>
  Claim C9 as stated fails for the piece at its spawn position on the empty board: the
  turn back to pointing up is refused (the second cell would be at row \<open>-1\<close>), so four
  turns to the right, and a left turn followed by a right turn, end pointing left.
\<close>

theorem rotation_at_spawn_counterexample:
  "map_option rotation (currentPuyo started) = Some 0 \<and>
   map_option rotation (currentPuyo
     (rotatePuyo RotRight (rotatePuyo RotRight (rotatePuyo RotRight (rotatePuyo RotRight started)))))
     = Some 3 \<and>
   map_option rotation (currentPuyo (rotatePuyo RotRight (rotatePuyo RotLeft started))) = Some 3"
  by code_simp

lemma holdPuyo_refused: "hold_refused s \<Longrightarrow> holdPuyo rnd s = s"
  by (auto simp: hold_refused_def holdPuyo_def split: option.splits)

lemma hold_refused_holdPuyo: "hold_refused (holdPuyo rnd s)"
  by (auto simp: hold_refused_def holdPuyo_def split: option.splits)

lemma hold_refused_perform:
  "hold_refused s \<Longrightarrow> \<not> locks a s \<Longrightarrow> perform a rnd s = Some s' \<Longrightarrow> hold_refused s'"
proof (cases a)
  case (Move d)
  assume h: "hold_refused s" and l: "\<not> locks a s" and p: "perform a rnd s = Some s'"
  from p Move have m: "movePuyo d rnd s = Some s'" by simp
  show ?thesis
  proof (cases "currentPuyo s = None \<or> gameState s \<noteq> Active \<or> isPaused s")
    case True
    then have "s' = s" using m by (auto simp: movePuyo_def split: option.splits)
    then show ?thesis using h by simp
  next
    case False
    then obtain cp where cp: "currentPuyo s = Some cp" by auto
    have nc: "\<not> canHold s" using h False by (auto simp: hold_refused_def)
    have "s' = s \<or> s' = s\<lparr>currentPuyo := Some (moved d cp)\<rparr>"
      using m l False cp Move
      by (auto simp: movePuyo_def locks_def Let_def split: if_splits)
    then show ?thesis using nc by (auto simp: hold_refused_def)
  qed
next
  case (Rotate d)
  assume h: "hold_refused s" and p: "perform a rnd s = Some s'"
  from p Rotate have "s' = rotatePuyo d s" by simp
  then show ?thesis using h
    by (auto simp: hold_refused_def rotatePuyo_def Let_def split: option.splits if_splits)
next
  case Hold
  assume p: "perform a rnd s = Some s'"
  with Hold have "s' = holdPuyo rnd s" by simp
  then show ?thesis by (simp add: hold_refused_holdPuyo)
qed

lemma hold_refused_run:
  "hold_refused s \<Longrightarrow> run_without_lock acts s = Some s' \<Longrightarrow> hold_refused s'"
proof (induction acts arbitrary: s)
  case Nil
  then show ?case by simp
next
  case (Cons ar acts)
  obtain a rnd where ar: "ar = (a, rnd)" by (cases ar)
  from Cons.prems(2) ar obtain s1 where l: "\<not> locks a s" and p: "perform a rnd s = Some s1"
    and r: "run_without_lock acts s1 = Some s'"
    by (auto split: if_splits option.splits)
  from hold_refused_perform [OF Cons.prems(1) l p] have "hold_refused s1" .
  from Cons.IH [OF this r] show ?case .
qed

text \<open>
  Claim C6.  After a call of \<open>holdPuyo\<close>, and any moves, rotations and holds that lock
  no piece, another call of \<open>holdPuyo\<close> changes nothing.  A permitted hold with a piece
  held swaps: the held piece comes into play at column 2, row 0, pointing up, the current
  piece is held, the queue is untouched.  A permitted hold with nothing held stores the
  current piece, puts the front of the queue into play and appends a generated piece to
  the queue.  A lock permits the hold again.
\<close>

theorem hold_once_per_lock:
  "(run_without_lock acts (holdPuyo rnd s) = Some s' \<longrightarrow> holdPuyo rnd' s' = s') \<and>
   (currentPuyo s = Some cp \<and> canHold s \<and> gameState s = Active \<and> \<not> isPaused s \<and>
    heldPuyo s = Some hp \<longrightarrow>
      holdPuyo rnd s = s\<lparr>currentPuyo := Some (hp\<lparr>x_coord := 2, y_coord := 0, rotation := 0\<rparr>),
                         heldPuyo := Some cp, canHold := False\<rparr>) \<and>
   (currentPuyo s = Some cp \<and> canHold s \<and> gameState s = Active \<and> \<not> isPaused s \<and>
    heldPuyo s = None \<and> nextPuyos s = p # ps \<longrightarrow>
      holdPuyo rnd s = s\<lparr>heldPuyo := Some cp, currentPuyo := Some p,
                         nextPuyos := ps @ [generatePuyoPair rnd], canHold := False\<rparr>) \<and>
   (currentPuyo s = Some cp \<and> in_bounds cp \<and> wf_grid (grid s) \<longrightarrow>
      (\<exists>s''. placePuyo rnd s = Some s'' \<and> canHold s''))"
proof -
  have a: "run_without_lock acts (holdPuyo rnd s) = Some s' \<longrightarrow> holdPuyo rnd' s' = s'"
    using hold_refused_run [OF hold_refused_holdPuyo] holdPuyo_refused by blast
  have b: "currentPuyo s = Some cp \<and> canHold s \<and> gameState s = Active \<and> \<not> isPaused s \<and>
    heldPuyo s = Some hp \<longrightarrow>
      holdPuyo rnd s = s\<lparr>currentPuyo := Some (hp\<lparr>x_coord := 2, y_coord := 0, rotation := 0\<rparr>),
                         heldPuyo := Some cp, canHold := False\<rparr>"
    by (simp add: holdPuyo_def)
  have c: "currentPuyo s = Some cp \<and> canHold s \<and> gameState s = Active \<and> \<not> isPaused s \<and>
    heldPuyo s = None \<and> nextPuyos s = p # ps \<longrightarrow>
      holdPuyo rnd s = s\<lparr>heldPuyo := Some cp, currentPuyo := Some p,
                         nextPuyos := ps @ [generatePuyoPair rnd], canHold := False\<rparr>"
    by (simp add: holdPuyo_def)
  have d: "currentPuyo s = Some cp \<and> in_bounds cp \<and> wf_grid (grid s) \<longrightarrow>
      (\<exists>s''. placePuyo rnd s = Some s'' \<and> canHold s'')"
  proof
    assume h: "currentPuyo s = Some cp \<and> in_bounds cp \<and> wf_grid (grid s)"
    then obtain s'' where p: "placePuyo rnd s = Some s''" using placePuyo_returns by blast
    then obtain s2 where s2: "animateChain (lock_grid (grid s) cp) 0
          (s\<lparr>grid := lock_grid (grid s) cp, currentPuyo := None, canHold := True\<rparr>) = Some s2"
      and s'': "s'' = s2\<lparr>currentPuyo := (case nextPuyos s of [] \<Rightarrow> None | p # _ \<Rightarrow> Some p),
                       nextPuyos := tl (nextPuyos s) @ [generatePuyoPair rnd]\<rparr>"
      using placePuyo_in_bounds [of s cp rnd] h
      by (cases "animateChain (lock_grid (grid s) cp) 0
          (s\<lparr>grid := lock_grid (grid s) cp, currentPuyo := None, canHold := True\<rparr>)") auto
    from animateChain_frame [OF s2] s'' have "canHold s''" by simp
    with p show "\<exists>s''. placePuyo rnd s = Some s'' \<and> canHold s''" by blast
  qed
  from a b c d show ?thesis by blast
qed

text \<open>Claim C6 on the started session.\<close>

theorem hold_once_per_lock_witness:
  "run_without_lock [(Move Down, (Red, Red)), (Rotate RotRight, (Red, Red))]
     (holdPuyo (Red, Red) started) = Some held_and_moved \<and>
   holdPuyo (Green, Green) held_and_moved = held_and_moved \<and>
   holdPuyo (Red, Red) started =
     started\<lparr>heldPuyo := Some (generatePuyoPair (Purple, Purple)),
             currentPuyo := Some (generatePuyoPair (Blue, Blue)),
             nextPuyos := [generatePuyoPair (Yellow, Purple), generatePuyoPair (Green, Red)]
                          @ [generatePuyoPair (Red, Red)],
             canHold := False\<rparr> \<and>
   holdPuyo (Red, Red) (held_and_moved\<lparr>canHold := True\<rparr>) =
     held_and_moved\<lparr>canHold := True\<rparr>
       \<lparr>currentPuyo := Some ((generatePuyoPair (Purple, Purple))
                                 \<lparr>x_coord := 2, y_coord := 0, rotation := 0\<rparr>),
        heldPuyo := Some \<lparr>color1 = Some Blue, color2 = Some Blue,
                            x_coord = 2, y_coord = 1, rotation = 1\<rparr>,
        canHold := False\<rparr> \<and>
   canHold after_lock"
proof -
  let ?acts = "[(Move Down, (Red, Red)), (Rotate RotRight, (Red, Red))]"
  let ?bb = "\<lparr>color1 = Some Blue, color2 = Some Blue, x_coord = 2, y_coord = 1, rotation = 1\<rparr>"
  let ?rp = "\<lparr>color1 = Some Purple, color2 = Some Purple, x_coord = 2, y_coord = 0, rotation = 1\<rparr>"
  have run: "run_without_lock ?acts (holdPuyo (Red, Red) started) = Some held_and_moved"
    by code_simp
  have st: "currentPuyo started = Some (generatePuyoPair (Purple, Purple))" "canHold started"
    "gameState started = Active" "\<not> isPaused started" "heldPuyo started = None"
    "nextPuyos started = generatePuyoPair (Blue, Blue)
                         # [generatePuyoPair (Yellow, Purple), generatePuyoPair (Green, Red)]"
    by code_simp+
  have hm: "currentPuyo (held_and_moved\<lparr>canHold := True\<rparr>) = Some ?bb"
    "canHold (held_and_moved\<lparr>canHold := True\<rparr>)"
    "gameState (held_and_moved\<lparr>canHold := True\<rparr>) = Active"
    "\<not> isPaused (held_and_moved\<lparr>canHold := True\<rparr>)"
    "heldPuyo (held_and_moved\<lparr>canHold := True\<rparr>) = Some (generatePuyoPair (Purple, Purple))"
    by code_simp+
  have lk: "currentPuyo (rotatePuyo RotRight stacked) = Some ?rp" "in_bounds ?rp"
    by code_simp+
  from hold_once_per_lock [of ?acts "(Red, Red)" started held_and_moved "(Green, Green)"] run
  have a: "holdPuyo (Green, Green) held_and_moved = held_and_moved" by blast
  from hold_once_per_lock [of _ "(Red, Red)" started _ _ "generatePuyoPair (Purple, Purple)" _
      "generatePuyoPair (Blue, Blue)" "[generatePuyoPair (Yellow, Purple), generatePuyoPair (Green, Red)]"] st
  have b: "holdPuyo (Red, Red) started =
     started\<lparr>heldPuyo := Some (generatePuyoPair (Purple, Purple)),
             currentPuyo := Some (generatePuyoPair (Blue, Blue)),
             nextPuyos := [generatePuyoPair (Yellow, Purple), generatePuyoPair (Green, Red)]
                          @ [generatePuyoPair (Red, Red)],
             canHold := False\<rparr>"
    by blast
  from hold_once_per_lock [of _ "(Red, Red)" "held_and_moved\<lparr>canHold := True\<rparr>" _ _ ?bb
      "generatePuyoPair (Purple, Purple)"] hm
  have c: "holdPuyo (Red, Red) (held_and_moved\<lparr>canHold := True\<rparr>) =
     held_and_moved\<lparr>canHold := True\<rparr>
       \<lparr>currentPuyo := Some ((generatePuyoPair (Purple, Purple))
                                 \<lparr>x_coord := 2, y_coord := 0, rotation := 0\<rparr>),
        heldPuyo := Some ?bb, canHold := False\<rparr>"
    by blast
  have wf: "wf_grid (grid (rotatePuyo RotRight stacked))" by code_simp
  from hold_once_per_lock [of _ "(Red, Red)" "rotatePuyo RotRight stacked" _ _ ?rp] lk wf
  obtain s'' where "placePuyo (Red, Red) (rotatePuyo RotRight stacked) = Some s''" "canHold s''"
    by blast
  then have d: "canHold after_lock" using lock_on_stacked by simp
  from run a b c d show ?thesis by blast
qed

end
